theory Spec2Isabelle
  imports Complex_Main "HOL-Library.Log_Nat"
begin

section \<open>Common Python and Pillow notions\<close>

text \<open>
  Python exceptions are values; each carries the text that \<open>str(e)\<close> prints.
\<close>

datatype exn =
    ZeroDivisionError string
  | OverflowError string
  | ValueError string
  | IndexError string
  | OSError string
  | MemoryError string
  | SystemError string

fun str_exn :: "exn \<Rightarrow> string" where
  "str_exn (ZeroDivisionError m) = m"
| "str_exn (OverflowError m) = m"
| "str_exn (ValueError m) = m"
| "str_exn (IndexError m) = m"
| "str_exn (OSError m) = m"
| "str_exn (MemoryError m) = m"
| "str_exn (SystemError m) = m"

text \<open>
  A \<open>for\<close> loop over a list whose body may raise: the first exception ends the loop
  and is the result.
\<close>

fun for_each :: "'a list \<Rightarrow> ('a \<Rightarrow> 's \<Rightarrow> exn + 's) \<Rightarrow> 's \<Rightarrow> exn + 's" where
  "for_each [] body s = Inr s"
| "for_each (x # xs) body s =
     (case body x s of Inl e \<Rightarrow> Inl e | Inr s' \<Rightarrow> for_each xs body s')"

text \<open>\<open>range(a, b)\<close> on Python integers; empty when \<open>b \<le> a\<close>.\<close>

definition py_range :: "int \<Rightarrow> int \<Rightarrow> int list" where
  "py_range a b = [a..b - 1]"

text \<open>\<open>str(n)\<close> for an integer, as an f-string renders it.\<close>

definition digit_char :: "nat \<Rightarrow> char" where
  "digit_char d = ''0123456789'' ! d"

fun str_nat :: "nat \<Rightarrow> string" where
  "str_nat n =
     (if n < 10 then [digit_char n] else str_nat (n div 10) @ [digit_char (n mod 10)])"

definition str_int :: "int \<Rightarrow> string" where
  "str_int i = (if i < 0 then ''-'' @ str_nat (nat (- i)) else str_nat (nat i))"

text \<open>
  An RGB raster. Pillow keeps sizes non-negative, so they are naturals; pixel
  coordinates are Python integers.
\<close>

type_synonym rgb = "nat \<times> nat \<times> nat"

record image =
  xsize :: nat
  ysize :: nat
  pix :: "int \<times> int \<Rightarrow> rgb"

text \<open>
  What Pillow and the operating system decide: \<open>out_of_memory sys (w, h)\<close> says that
  a raster of \<open>w\<close> by \<open>h\<close> pixels cannot be allocated (Pillow's limit on the length of a
  line included), and \<open>save_error sys path img\<close> is the exception that
  \<open>img.save(path)\<close> raises, if any: a directory that is missing, a file that cannot be
  written, an image that the encoder refuses.
\<close>

record pillow =
  out_of_memory :: "int \<times> int \<Rightarrow> bool"
  save_error :: "string \<Rightarrow> image \<Rightarrow> exn option"

text \<open>What converting a Python integer of \<open>2 ^ 31\<close> or more to a C \<open>int\<close> raises.\<close>

definition c_int_overflow :: "int \<Rightarrow> exn" where
  "c_int_overflow v =
     (if v < 2 ^ 63 then OverflowError ''signed integer is greater than maximum''
      else OverflowError ''Python int too large to convert to C long'')"

text \<open>
  \<open>Image.new("RGB", size, color)\<close>: Pillow rejects a negative size, its sizes are C
  integers, and the raster has to be allocated.
\<close>

definition Image_new :: "'a pillow_scheme \<Rightarrow> int \<times> int \<Rightarrow> rgb \<Rightarrow> exn + image" where
  "Image_new sys sz color =
     (case sz of (w, h) \<Rightarrow>
        if w < 0 \<or> h < 0 then Inl (ValueError ''Width and height must be >= 0'')
        else if 2 ^ 31 \<le> w then Inl (c_int_overflow w)
        else if 2 ^ 31 \<le> h then Inl (c_int_overflow h)
        else if out_of_memory sys (w, h) then Inl (MemoryError [])
        else Inr \<lparr>xsize = nat w, ysize = nat h, pix = (\<lambda>_. color)\<rparr>)"

text \<open>
  The files written by \<open>image.save(path)\<close>, oldest first. A save that raises writes
  nothing.
\<close>

type_synonym saved = "(string \<times> image) list"

definition save :: "'a pillow_scheme \<Rightarrow> image \<Rightarrow> string \<Rightarrow> saved \<Rightarrow> exn + saved" where
  "save sys img filename fs =
     (case save_error sys filename img of
        Some e \<Rightarrow> Inl e
      | None \<Rightarrow> Inr (fs @ [(filename, img)]))"

section \<open>img.py: images of random blocks\<close>

text \<open>
  The generator \<open>random\<close> is the stream of the draws still to come;
  \<open>randint(lo, hi)\<close> takes the next one into the range \<open>lo..hi\<close>.
\<close>

type_synonym rng = "nat \<Rightarrow> nat"

definition randint :: "nat \<Rightarrow> nat \<Rightarrow> rng \<Rightarrow> nat \<times> rng" where
  "randint lo hi g = (lo + g 0 mod (hi - lo + 1), \<lambda>n. g (Suc n))"

definition random_color :: "rng \<Rightarrow> rgb \<times> rng" where
  "random_color g =
     (let (r, g1) = randint 0 255 g;
          (gr, g2) = randint 0 255 g1;
          (b, g3) = randint 0 255 g2
      in ((r, gr, b), g3))"

text \<open>
  \<open>pixels = img.load()\<close> is a pixel-access object on the image itself: an assignment
  \<open>pixels[x, y] = color\<close> changes the image. A negative coordinate counts from the
  far edge; IndexError is raised outside the image. The field \<open>assigned\<close> records
  the assignments made so far, in order: the pixel and the colour it was given.
\<close>

record pixel_access =
  target :: image
  assigned :: "((int \<times> int) \<times> rgb) list"

definition load :: "image \<Rightarrow> pixel_access" where
  "load img = \<lparr>target = img, assigned = []\<rparr>"

definition setitem :: "int \<times> int \<Rightarrow> rgb \<Rightarrow> pixel_access \<Rightarrow> exn + pixel_access" where
  "setitem xy color p =
     (case xy of (x0, y0) \<Rightarrow>
        let x = (if x0 < 0 then int (xsize (target p)) + x0 else x0);
            y = (if y0 < 0 then int (ysize (target p)) + y0 else y0)
        in if 0 \<le> x \<and> x < int (xsize (target p)) \<and> 0 \<le> y \<and> y < int (ysize (target p))
           then Inr \<lparr>target = (target p)\<lparr>pix := (pix (target p))((x, y) := color)\<rparr>,
                     assigned = assigned p @ [((x, y), color)]\<rparr>
           else Inl (IndexError ''image index out of range''))"

text \<open>The body of the two block loops: one colour, then its square, pixel by pixel.\<close>

definition paint_block ::
  "int \<Rightarrow> int \<Rightarrow> int \<Rightarrow> rng \<times> pixel_access \<Rightarrow> exn + rng \<times> pixel_access" where
  "paint_block block_size bx by st =
     (case st of (g, pixels) \<Rightarrow>
        let (color, g') = random_color g;
            x0 = bx * block_size; x1 = (bx + 1) * block_size;
            y0 = by * block_size; y1 = (by + 1) * block_size
        in case for_each (py_range x0 x1)
                  (\<lambda>x. for_each (py_range y0 y1) (\<lambda>y. setitem (x, y) color)) pixels of
             Inl e \<Rightarrow> Inl e
           | Inr pixels' \<Rightarrow> Inr (g', pixels'))"

definition paint_blocks ::
  "int \<Rightarrow> int \<Rightarrow> int \<Rightarrow> rng \<times> pixel_access \<Rightarrow> exn + rng \<times> pixel_access" where
  "paint_blocks width height block_size =
     for_each (py_range 0 width)
       (\<lambda>bx. for_each (py_range 0 height) (\<lambda>by. paint_block block_size bx by))"



text \<open>The pixels of logical block \<open>(bx, by)\<close>.\<close>

definition block_square :: "int \<Rightarrow> int \<Rightarrow> int \<Rightarrow> (int \<times> int) set" where
  "block_square block_size bx by =
     {bx * block_size ..< (bx + 1) * block_size} \<times> {by * block_size ..< (by + 1) * block_size}"

text \<open>Notions used to state what the loops of img.py do.\<close>

definition put_all :: "(int \<times> int) list \<Rightarrow> rgb \<Rightarrow> pixel_access \<Rightarrow> pixel_access" where
  "put_all ps color p =
     \<lparr>target = (target p)\<lparr>pix := (\<lambda>q. if q \<in> set ps then color else pix (target p) q)\<rparr>,
      assigned = assigned p @ map (\<lambda>q. (q, color)) ps\<rparr>"

definition in_image :: "pixel_access \<Rightarrow> (int \<times> int) set" where
  "in_image p = {0 ..< int (xsize (target p))} \<times> {0 ..< int (ysize (target p))}"

definition square_list :: "int \<Rightarrow> int \<Rightarrow> int \<Rightarrow> (int \<times> int) list" where
  "square_list block_size bx by =
     List.product (py_range (bx * block_size) ((bx + 1) * block_size))
                  (py_range (by * block_size) ((by + 1) * block_size))"



definition counting :: rng where
  "counting n = n"

section \<open>Python floats\<close>

text \<open>
  A Python float is an IEEE 754 binary64 number. The finite ones are the rationals
  \<open>m * 2 ^ e\<close> with \<open>\<bar>m\<bar> < 2 ^ 53\<close> and \<open>- 1074 \<le> e \<le> 971\<close>; each operation
  returns the exact result rounded to the nearest of them, ties to the even mantissa.
\<close>

datatype float = Finite rat | Infinity | NaN

text \<open>Rounding a rational to the nearest integer, ties to the even one.\<close>

definition round_half_even :: "rat \<Rightarrow> int" where
  "round_half_even x =
     (let f = \<lfloor>x\<rfloor>; d = x - of_int f
      in if d < 1 / 2 then f else if 1 / 2 < d then f + 1 else if even f then f else f + 1)"

text \<open>The exponent \<open>i\<close> with \<open>2 ^ i \<le> x < 2 ^ (i + 1)\<close>, for \<open>x > 0\<close>.\<close>

definition ilog2 :: "rat \<Rightarrow> int" where
  "ilog2 x =
     (case quotient_of x of (a, b) \<Rightarrow>
        let k = int (floorlog 2 (nat a)) - int (floorlog 2 (nat b))
        in if 2 powi k \<le> x then k else k - 1)"

text \<open>
  Rounding to binary64 precision: 53 bits of mantissa, and no exponent below that of
  the subnormal numbers. The exponent is not bounded above here; \<open>overflows\<close> says
  when the rounded value is beyond the largest finite float.
\<close>

definition float_exponent :: "rat \<Rightarrow> int" where
  "float_exponent x = max (ilog2 \<bar>x\<bar> - 52) (- 1074)"

definition fl :: "rat \<Rightarrow> rat" where
  "fl x =
     (if x = 0 then 0
      else of_int (round_half_even (x / 2 powi float_exponent x)) * 2 powi float_exponent x)"

definition overflows :: "rat \<Rightarrow> bool" where
  "overflows x \<longleftrightarrow> 2 ^ 1024 \<le> \<bar>fl x\<bar>"

text \<open>\<open>a / b\<close> on two Python integers: the correctly rounded quotient.\<close>

definition py_truediv :: "int \<Rightarrow> int \<Rightarrow> exn + float" where
  "py_truediv a b =
     (if b = 0 then Inl (ZeroDivisionError ''division by zero'')
      else if overflows (of_int a / of_int b)
      then Inl (OverflowError ''integer division result too large for a float'')
      else Inr (Finite (fl (of_int a / of_int b))))"

text \<open>
  \<open>c * x\<close> for an integer \<open>c\<close> and a float \<open>x\<close>: \<open>c\<close> is converted to a float first
  (OverflowError when it is too large), then the floats are multiplied.
\<close>

definition float_mult :: "float \<Rightarrow> float \<Rightarrow> float" where
  "float_mult a b =
     (case (a, b) of
        (Finite p, Finite q) \<Rightarrow> if overflows (p * q) then Infinity else Finite (fl (p * q))
      | (Finite p, Infinity) \<Rightarrow> if p = 0 then NaN else Infinity
      | (Infinity, Finite q) \<Rightarrow> if q = 0 then NaN else Infinity
      | (Infinity, Infinity) \<Rightarrow> Infinity
      | _ \<Rightarrow> NaN)"

definition int_to_float :: "int \<Rightarrow> exn + float" where
  "int_to_float c =
     (if overflows (of_int c) then Inl (OverflowError ''int too large to convert to float'')
      else Inr (Finite (fl (of_int c))))"

definition int_times_float :: "int \<Rightarrow> float \<Rightarrow> exn + float" where
  "int_times_float c x =
     (case int_to_float c of Inl e \<Rightarrow> Inl e | Inr cf \<Rightarrow> Inr (float_mult cf x))"

text \<open>\<open>round(x)\<close> and \<open>math.ceil(x)\<close> on a float give an integer, exactly.\<close>

definition py_round :: "float \<Rightarrow> exn + int" where
  "py_round x =
     (case x of
        Finite q \<Rightarrow> Inr (round_half_even q)
      | Infinity \<Rightarrow> Inl (OverflowError ''cannot convert float infinity to integer'')
      | NaN \<Rightarrow> Inl (ValueError ''cannot convert float NaN to integer''))"

definition py_ceil :: "float \<Rightarrow> exn + int" where
  "py_ceil x =
     (case x of
        Finite q \<Rightarrow> Inr \<lceil>q\<rceil>
      | Infinity \<Rightarrow> Inl (OverflowError ''cannot convert float infinity to integer'')
      | NaN \<Rightarrow> Inl (ValueError ''cannot convert float NaN to integer''))"

section \<open>generate\_tiles.py: solid tiles from the cells of a grid\<close>

text \<open>Sequencing of steps that may raise.\<close>

definition and_then :: "exn + 'a \<Rightarrow> ('a \<Rightarrow> exn + 'b) \<Rightarrow> exn + 'b" where
  "and_then m f = (case m of Inl e \<Rightarrow> Inl e | Inr x \<Rightarrow> f x)"

text \<open>\<open>a % b\<close> on Python integers: the remainder has the sign of \<open>b\<close>.\<close>

definition py_mod :: "int \<Rightarrow> int \<Rightarrow> exn + int" where
  "py_mod a b =
     (if b = 0 then Inl (ZeroDivisionError ''integer modulo by zero'') else Inr (a mod b))"

text \<open>\<open>enumerate(xs)\<close>: each element with its index, from 0.\<close>

definition enumerate_list :: "'a list \<Rightarrow> (int \<times> 'a) list" where
  "enumerate_list xs = zip (py_range 0 (int (length xs))) xs"

text \<open>\<open>os.path.join(a, b)\<close> for POSIX paths.\<close>

definition py_join :: "string \<Rightarrow> string \<Rightarrow> string" where
  "py_join a b =
     (if b \<noteq> [] \<and> hd b = CHR ''/'' then b
      else if a = [] \<or> last a = CHR ''/'' then a @ b
      else a @ ''/'' @ b)"

text \<open>
  \<open>image.crop((left, upper, right, lower))\<close>: the region as an image of its own;
  what lies outside the source is black. Pillow rejects a box whose right or lower
  edge is before its left or upper edge.
\<close>

definition crop :: "int \<times> int \<times> int \<times> int \<Rightarrow> image \<Rightarrow> exn + image" where
  "crop box img =
     (case box of (left, upper, right, lower) \<Rightarrow>
        if right < left then Inl (ValueError (''Coordinate 'right' is less than 'left'' @ [CHR 0x27]))
        else if lower < upper then Inl (ValueError (''Coordinate 'lower' is less than 'upper'' @ [CHR 0x27]))
        else Inr \<lparr>xsize = nat (right - left), ysize = nat (lower - upper),
                  pix = (\<lambda>(x, y).
                    if 0 \<le> x + left \<and> x + left < int (xsize img) \<and>
                       0 \<le> y + upper \<and> y + upper < int (ysize img)
                    then pix img (x + left, y + upper) else (0, 0, 0))\<rparr>)"

text \<open>
  \<open>preview.paste(t, (x, y))\<close>: the pixels of \<open>t\<close> replace those of the box of the size
  of \<open>t\<close> at \<open>(x, y)\<close>; the part of the box outside the target is dropped.
\<close>

definition paste :: "image \<Rightarrow> int \<times> int \<Rightarrow> image \<Rightarrow> image" where
  "paste t xy preview =
     (case xy of (x, y) \<Rightarrow>
        preview\<lparr>pix := (\<lambda>(px, py).
          if x \<le> px \<and> px < x + int (xsize t) \<and> y \<le> py \<and> py < y + int (ysize t) \<and>
             0 \<le> px \<and> px < int (xsize preview) \<and> 0 \<le> py \<and> py < int (ysize preview)
          then pix t (px - x, py - y) else pix preview (px, py))\<rparr>)"

text \<open>
  What the program reads from its surroundings, besides what \<open>pillow\<close> holds: the
  file system as it finds it, the clock, the home directory, and Pillow's decoder and
  resampler. \<open>resize_1x1 env img\<close> is the pixel of
  \<open>img.resize((1, 1), resample=Image.BILINEAR)\<close>, and \<open>makedirs_error env path\<close> is the
  exception that \<open>os.makedirs(path, exist_ok=True)\<close> raises, if any.
\<close>

record env = pillow +
  isfile :: "string \<Rightarrow> bool"
  image_open :: "string \<Rightarrow> exn + image"
  home :: string
  now :: string
  resize_1x1 :: "image \<Rightarrow> rgb"
  makedirs_error :: "string \<Rightarrow> exn option"

text \<open>
  What the program leaves behind: the lines printed, the directories created and the
  files written, each oldest first.
\<close>

record world =
  stdout :: "string list"
  dirs :: "string list"
  files :: saved

definition print :: "string \<Rightarrow> world \<Rightarrow> world" where
  "print line wd = wd\<lparr>stdout := stdout wd @ [line]\<rparr>"

text \<open>\<open>image.save(path)\<close> on the files of the world.\<close>

definition save_io :: "env \<Rightarrow> image \<Rightarrow> string \<Rightarrow> world \<Rightarrow> exn + world" where
  "save_io env img path wd =
     (case save env img path (files wd) of
        Inl e \<Rightarrow> Inl e
      | Inr fs \<Rightarrow> Inr (wd\<lparr>files := fs\<rparr>))"

text \<open>
  A \<open>for\<close> loop whose body prints and writes files: what was printed and written before
  an exception stays.
\<close>

fun for_each_io ::
  "'a list \<Rightarrow> ('a \<Rightarrow> 's \<Rightarrow> world \<Rightarrow> (exn + 's) \<times> world) \<Rightarrow> 's \<Rightarrow> world \<Rightarrow> (exn + 's) \<times> world"
where
  "for_each_io [] body s wd = (Inr s, wd)"
| "for_each_io (x # xs) body s wd =
     (case body x s wd of
        (Inl e, wd') \<Rightarrow> (Inl e, wd')
      | (Inr s', wd') \<Rightarrow> for_each_io xs body s' wd')"

definition average_color :: "env \<Rightarrow> image \<Rightarrow> rgb" where
  "average_color env img = resize_1x1 env img"

definition ensure_desktop_folder :: "env \<Rightarrow> string \<Rightarrow> world \<Rightarrow> (exn + string) \<times> world" where
  "ensure_desktop_folder env folder_name wd =
     (let desktop = py_join (home env) ''Desktop'';
          out_dir = py_join desktop folder_name
      in case makedirs_error env out_dir of
           Some e \<Rightarrow> (Inl e, wd)
         | None \<Rightarrow>
             (Inr out_dir,
              if out_dir \<in> set (dirs wd) then wd else wd\<lparr>dirs := dirs wd @ [out_dir]\<rparr>))"

definition make_solid_tile :: "env \<Rightarrow> rgb \<Rightarrow> int \<times> int \<Rightarrow> exn + image" where
  "make_solid_tile env color sz = Image_new env sz color"

text \<open>
  The body of the loop of \<open>build_preview\<close>, on the loop variables \<open>preview\<close>, \<open>x\<close> and
  \<open>y\<close>, for the pair \<open>(i, t)\<close> of \<open>enumerate(tiles)\<close>.
\<close>

definition paste_tile ::
  "int \<Rightarrow> int \<Rightarrow> int \<Rightarrow> int \<times> image \<Rightarrow> image \<times> int \<times> int \<Rightarrow> exn + image \<times> int \<times> int" where
  "paste_tile cols tile_size padding it st =
     (case it of (i, t) \<Rightarrow>
      case st of (preview, x, y) \<Rightarrow>
        let preview' = paste t (x, y) preview;
            x' = x + (tile_size + padding)
        in and_then (py_mod (i + 1) cols) (\<lambda>m.
             if m = 0 then Inr (preview', padding, y + (tile_size + padding))
             else Inr (preview', x', y)))"

definition build_preview ::
  "env \<Rightarrow> image list \<Rightarrow> int \<Rightarrow> int \<Rightarrow> int \<Rightarrow> rgb \<Rightarrow> exn + image" where
  "build_preview env tiles cols tile_size padding bg =
     and_then (py_truediv (int (length tiles)) cols) (\<lambda>q.
     and_then (py_ceil q) (\<lambda>rows.
       let w = cols * tile_size + (cols + 1) * padding;
           h = rows * tile_size + (rows + 1) * padding
       in and_then (Image_new env (w, h) bg) (\<lambda>preview.
          and_then (for_each (enumerate_list tiles) (paste_tile cols tile_size padding)
                      (preview, padding, padding))
            (\<lambda>(preview', x, y). Inr preview'))))"

text \<open>The command line, as \<open>ArgumentParser\<close> returns it.\<close>

record args =
  arg_source :: string
  arg_cols :: int
  arg_rows :: int
  arg_tile_size :: int
  arg_preview_cols :: int

text \<open>
  How a run ends: \<open>sys.exit(n)\<close> or the end of \<open>main\<close> (exit code 0), or an exception
  that nothing catches.
\<close>

datatype outcome = Exit int | Uncaught exn

text \<open>
  The pixel bounds of the cell in row \<open>r\<close> and column \<open>c\<close>, after clamping: left,
  upper, right, lower.
\<close>

definition cell_bounds ::
  "int \<Rightarrow> int \<Rightarrow> float \<Rightarrow> float \<Rightarrow> int \<Rightarrow> int \<Rightarrow> exn + int \<times> int \<times> int \<times> int" where
  "cell_bounds w h cell_w cell_h r c =
     and_then (int_times_float c cell_w) (\<lambda>a. and_then (py_round a) (\<lambda>left.
     and_then (int_times_float r cell_h) (\<lambda>b. and_then (py_round b) (\<lambda>upper.
     and_then (int_times_float (c + 1) cell_w) (\<lambda>a'. and_then (py_round a') (\<lambda>right.
     and_then (int_times_float (r + 1) cell_h) (\<lambda>b'. and_then (py_round b') (\<lambda>lower.
       Inr (left, upper, min right w, min lower h)))))))))"

definition degenerate :: "int \<times> int \<times> int \<times> int \<Rightarrow> bool" where
  "degenerate box = (case box of (left, upper, right, lower) \<Rightarrow> right \<le> left \<or> lower \<le> upper)"

text \<open>The body of the two grid loops, on the list \<open>tiles\<close>.\<close>

definition make_tile ::
  "env \<Rightarrow> args \<Rightarrow> image \<Rightarrow> float \<Rightarrow> float \<Rightarrow> string \<Rightarrow> int \<Rightarrow> int \<Rightarrow>
   image list \<Rightarrow> world \<Rightarrow> (exn + image list) \<times> world" where
  "make_tile env a img cell_w cell_h out_dir r c tiles wd =
     (case cell_bounds (int (xsize img)) (int (ysize img)) cell_w cell_h r c of
        Inl e \<Rightarrow> (Inl e, wd)
      | Inr box \<Rightarrow>
          if degenerate box
          then (Inr tiles,
                print (''Skipping empty cell at r='' @ str_int r @ '', c='' @ str_int c) wd)
          else
            (case crop box img of
               Inl e \<Rightarrow> (Inl e, wd)
             | Inr cell \<Rightarrow>
                 let col = average_color env cell
                 in case make_solid_tile env col (arg_tile_size a, arg_tile_size a) of
                      Inl e \<Rightarrow> (Inl e, wd)
                    | Inr tile \<Rightarrow>
                        let fname = ''tile_r'' @ str_int r @ ''_c'' @ str_int c @ ''.png'';
                            tile_path = py_join out_dir fname
                        in case save_io env tile tile_path wd of
                             Inl e \<Rightarrow> (Inl e, wd)
                           | Inr wd' \<Rightarrow> (Inr (tiles @ [tile]), wd')))"

definition make_tiles ::
  "env \<Rightarrow> args \<Rightarrow> image \<Rightarrow> int \<Rightarrow> int \<Rightarrow> float \<Rightarrow> float \<Rightarrow> string \<Rightarrow>
   image list \<Rightarrow> world \<Rightarrow> (exn + image list) \<times> world" where
  "make_tiles env a img cols rows cell_w cell_h out_dir =
     for_each_io (py_range 0 rows)
       (\<lambda>r. for_each_io (py_range 0 cols) (\<lambda>c. make_tile env a img cell_w cell_h out_dir r c))"

text \<open>
  \<open>main\<close> up to the end of the grid loops: either the run is over, or the tiles and
  the output directory go on to the preview.
\<close>

definition tiles_phase ::
  "env \<Rightarrow> args \<Rightarrow> world \<Rightarrow> (outcome + image list \<times> string) \<times> world" where
  "tiles_phase env a wd =
     (let src_path = arg_source a
      in if \<not> isfile env src_path
         then (Inl (Exit 1), print (''Source image not found: '' @ src_path) wd)
         else
           (case image_open env src_path of
              Inl e \<Rightarrow> (Inl (Exit 1), print (''Failed to open image: '' @ str_exn e) wd)
            | Inr img \<Rightarrow>
                let cols = max 1 (arg_cols a);
                    rows = max 1 (arg_rows a);
                    w = int (xsize img);
                    h = int (ysize img)
                in case py_truediv w cols of
                     Inl e \<Rightarrow> (Inl (Uncaught e), wd)
                   | Inr cell_w \<Rightarrow>
                       (case py_truediv h rows of
                          Inl e \<Rightarrow> (Inl (Uncaught e), wd)
                        | Inr cell_h \<Rightarrow>
                            let folder_name = ''image_tiles_'' @ now env
                            in case ensure_desktop_folder env folder_name wd of
                                 (Inl e, wd1) \<Rightarrow> (Inl (Uncaught e), wd1)
                               | (Inr out_dir, wd1) \<Rightarrow>
                                   let wd2 = print (''Source image: '' @ src_path @ '' ('' @
                                         str_int w @ ''x'' @ str_int h @ ''), grid: '' @
                                         str_int cols @ ''x'' @ str_int rows @ '', output: '' @
                                         out_dir) wd1
                                   in case make_tiles env a img cols rows cell_w cell_h
                                             out_dir [] wd2 of
                                        (Inl e, wd3) \<Rightarrow> (Inl (Uncaught e), wd3)
                                      | (Inr tiles, wd3) \<Rightarrow> (Inr (tiles, out_dir), wd3))))"

text \<open>The rest of \<open>main\<close>: the preview inside \<open>try\<close>, then the last line.\<close>

definition preview_phase ::
  "env \<Rightarrow> args \<Rightarrow> image list \<Rightarrow> string \<Rightarrow> world \<Rightarrow> outcome \<times> world" where
  "preview_phase env a tiles out_dir wd =
     (let wd' =
        (case build_preview env tiles (arg_preview_cols a) (arg_tile_size a) 2 (30, 30, 30) of
           Inl e \<Rightarrow> print (''Failed to build preview: '' @ str_exn e) wd
         | Inr preview \<Rightarrow>
             let preview_path = py_join out_dir ''preview.png''
             in case save_io env preview preview_path wd of
                  Inl e \<Rightarrow> print (''Failed to build preview: '' @ str_exn e) wd
                | Inr wd1 \<Rightarrow> print (''Saved preview: '' @ preview_path) wd1)
      in (Exit 0, print ''Done.'' wd'))"

definition main :: "env \<Rightarrow> args \<Rightarrow> world \<Rightarrow> outcome \<times> world" where
  "main env a wd =
     (case tiles_phase env a wd of
        (Inl out, wd') \<Rightarrow> (out, wd')
      | (Inr (tiles, out_dir), wd') \<Rightarrow> preview_phase env a tiles out_dir wd')"

text \<open>
  The placement of the contact sheet as the specification gives it: tile \<open>i\<close> has its
  upper left corner at \<open>spec_position cols tile_size padding i\<close>, and covers the square
  \<open>spec_rect cols tile_size padding i\<close>.
\<close>

definition spec_position :: "int \<Rightarrow> int \<Rightarrow> int \<Rightarrow> int \<Rightarrow> int \<times> int" where
  "spec_position cols tile_size padding i =
     (padding + (i mod cols) * (tile_size + padding),
      padding + (i div cols) * (tile_size + padding))"


fun spec_paste_tiles ::
  "int \<Rightarrow> int \<Rightarrow> int \<Rightarrow> (int \<times> image) list \<Rightarrow> image \<Rightarrow> image" where
  "spec_paste_tiles cols tile_size padding [] preview = preview"
| "spec_paste_tiles cols tile_size padding ((i, t) # its) preview =
     spec_paste_tiles cols tile_size padding its
       (paste t (spec_position cols tile_size padding i) preview)"

text \<open>The pixels of a cell.\<close>

definition cell_pixels :: "int \<times> int \<times> int \<times> int \<Rightarrow> (int \<times> int) set" where
  "cell_pixels box =
     (case box of (left, upper, right, lower) \<Rightarrow> {left ..< right} \<times> {upper ..< lower})"

text \<open>
  A small run: a source of one pixel, where nothing fails, one tile, and a preview of no
  columns; and a world in which nothing has happened yet.
\<close>

definition one_pixel :: image where
  "one_pixel = \<lparr>xsize = 1, ysize = 1, pix = (\<lambda>_. (10, 20, 30))\<rparr>"

definition example_env :: env where
  "example_env =
     \<lparr>out_of_memory = (\<lambda>_. False), save_error = (\<lambda>_ _. None),
      isfile = (\<lambda>path. path = ''photo.jpg''), image_open = (\<lambda>_. Inr one_pixel),
      home = ''/home/user'', now = ''20240101_120000'',
      resize_1x1 = (\<lambda>img. pix img (0, 0)), makedirs_error = (\<lambda>_. None)\<rparr>"

definition example_args :: args where
  "example_args =
     \<lparr>arg_source = ''photo.jpg'', arg_cols = 1, arg_rows = 1, arg_tile_size = 2,
      arg_preview_cols = 0\<rparr>"

definition empty_world :: world where
  "empty_world = \<lparr>stdout = [], dirs = [], files = []\<rparr>"

text \<open>The same run on a disk that refuses the preview, with a preview of one column.\<close>

definition preview_refused :: env where
  "preview_refused =
     example_env\<lparr>save_error := (\<lambda>path _.
       if path = ''/home/user/Desktop/image_tiles_20240101_120000/preview.png''
       then Some (OSError ''No space left on device'') else None)\<rparr>"

definition one_column :: args where
  "one_column = example_args\<lparr>arg_preview_cols := 1\<rparr>"

text \<open>
  The size of the contact sheet as the specification gives it, for \<open>n\<close> tiles: the
  number of rows is the exact ceiling of \<open>n / cols\<close>.
\<close>

definition spec_rows :: "nat \<Rightarrow> int \<Rightarrow> int" where
  "spec_rows n cols = \<lceil>(of_nat n :: rat) / of_int cols\<rceil>"

definition spec_preview_size :: "nat \<Rightarrow> int \<Rightarrow> int \<Rightarrow> int \<Rightarrow> int \<times> int" where
  "spec_preview_size n cols tile_size padding =
     (cols * tile_size + (cols + 1) * padding,
      spec_rows n cols * tile_size + (spec_rows n cols + 1) * padding)"

text \<open>
  The grid line before column (or row) \<open>c\<close>, for a cell width (or height) \<open>cw\<close>: the
  value of \<open>int(round(c * cell_w))\<close> when nothing overflows.
\<close>

definition edge :: "rat \<Rightarrow> int \<Rightarrow> int" where
  "edge cw c = round_half_even (fl (of_int c * cw))"

section \<open>Properties of the float model\<close>

lemma two_powi_less_iff: "(2::rat) powi m < 2 powi n \<longleftrightarrow> m < n"
proof
  assume a: "(2::rat) powi m < 2 powi n"
  show "m < n"
  proof (rule ccontr)
    assume "\<not> m < n"
    then have "(2::rat) powi n \<le> 2 powi m" by (intro power_int_increasing) simp_all
    with a show False by simp
  qed
next
  assume "m < n"
  then show "(2::rat) powi m < 2 powi n" by (intro power_int_strict_increasing) simp_all
qed

lemma two_powi_le_iff: "(2::rat) powi m \<le> 2 powi n \<longleftrightarrow> m \<le> n"
  using two_powi_less_iff [of n m] by (auto simp: not_less [symmetric])

lemma floorlog_rat_bounds:
  assumes "0 < (n::int)"
  shows "(2::rat) powi (int (floorlog 2 (nat n)) - 1) \<le> of_int n"
    and "of_int n < (2::rat) powi (int (floorlog 2 (nat n)))"
proof -
  let ?l = "floorlog 2 (nat n)"
  have pos: "0 < nat n" using assms by simp
  from floorlog_bounds [OF pos, of 2]
  have lo: "2 ^ (?l - 1) \<le> nat n" and hi: "nat n < 2 ^ ?l" by simp_all
  have l1: "1 \<le> ?l" using pos by (simp add: floorlog_def)
  have "(of_nat (2 ^ (?l - 1)) :: rat) \<le> of_nat (nat n)" using lo by (simp only: of_nat_le_iff)
  then have "(2::rat) ^ (?l - 1) \<le> of_int n" using assms by simp
  moreover have "(2::rat) powi (int ?l - 1) = 2 ^ (?l - 1)"
    using l1 by (simp add: power_int_def nat_diff_distrib)
  ultimately show "(2::rat) powi (int ?l - 1) \<le> of_int n" by simp
  have "(of_nat (nat n) :: rat) < of_nat (2 ^ ?l)" using hi by (simp only: of_nat_less_iff)
  then show "of_int n < (2::rat) powi (int ?l)" using assms by simp
qed

lemma ilog2_bounds:
  assumes "0 < x"
  shows "2 powi (ilog2 x) \<le> x" and "x < 2 powi (ilog2 x + 1)"
proof -
  obtain a b where q: "quotient_of x = (a, b)" by force
  have b: "0 < b" using quotient_of_denom_pos [OF q] .
  have x: "x = of_int a / of_int b" using quotient_of_div [OF q] .
  have a: "0 < a"
  proof (rule ccontr)
    assume "\<not> 0 < a"
    then have "(of_int a :: rat) \<le> 0" by simp
    then have "x \<le> 0" unfolding x using b by (simp add: divide_nonpos_pos)
    then show False using assms by simp
  qed
  define la where "la = int (floorlog 2 (nat a))"
  define lb where "lb = int (floorlog 2 (nat b))"
  define k where "k = la - lb"
  have A: "(2::rat) powi (la - 1) \<le> of_int a" "of_int a < (2::rat) powi la"
    unfolding la_def using floorlog_rat_bounds [OF a] by simp_all
  have B: "(2::rat) powi (lb - 1) \<le> of_int b" "of_int b < (2::rat) powi lb"
    unfolding lb_def using floorlog_rat_bounds [OF b] by simp_all
  have bq: "(0::rat) < of_int b" using b by simp
  have up: "x < 2 powi (k + 1)"
  proof -
    have "of_int a < (2::rat) powi (k + 1) * 2 powi (lb - 1)"
      using A(2) by (simp add: k_def flip: power_int_add)
    also have "\<dots> \<le> 2 powi (k + 1) * of_int b"
      using B(1) by (simp add: mult_left_mono)
    finally show ?thesis unfolding x using bq by (simp add: pos_divide_less_eq)
  qed
  have low: "2 powi (k - 1) \<le> x"
  proof -
    have "(2::rat) powi (k - 1) * of_int b \<le> 2 powi (k - 1) * 2 powi lb"
      using B(2) by (simp add: mult_left_mono)
    also have "\<dots> = 2 powi (la - 1)" by (simp add: k_def flip: power_int_add)
    also have "\<dots> \<le> of_int a" using A(1) .
    finally show ?thesis unfolding x using bq by (simp add: pos_le_divide_eq)
  qed
  have il: "ilog2 x = (if 2 powi k \<le> x then k else k - 1)"
    by (simp add: ilog2_def q k_def la_def lb_def Let_def)
  show "2 powi (ilog2 x) \<le> x" using low by (simp add: il)
  show "x < 2 powi (ilog2 x + 1)" using up by (auto simp: il not_le)
qed

lemma ilog2_unique:
  assumes "0 < x" "2 powi i \<le> x" "x < 2 powi (i + 1)"
  shows "ilog2 x = i"
proof -
  have "(2::rat) powi (ilog2 x) < 2 powi (i + 1)"
    using ilog2_bounds(1) [OF assms(1)] assms(3) by simp
  then have a: "ilog2 x < i + 1" by (simp add: two_powi_less_iff)
  have "(2::rat) powi i < 2 powi (ilog2 x + 1)"
    using ilog2_bounds(2) [OF assms(1)] assms(2) by simp
  then have "i < ilog2 x + 1" by (simp add: two_powi_less_iff)
  with a show ?thesis by simp
qed

lemma ilog2_mono:
  assumes "0 < x" "x \<le> y"
  shows "ilog2 x \<le> ilog2 y"
proof -
  have y: "0 < y" using assms by simp
  have "(2::rat) powi (ilog2 x) < 2 powi (ilog2 y + 1)"
    using ilog2_bounds(1) [OF assms(1)] ilog2_bounds(2) [OF y] assms(2) by simp
  then have "ilog2 x < ilog2 y + 1" by (simp add: two_powi_less_iff)
  then show ?thesis by simp
qed

lemma round_half_even_of_int [simp]: "round_half_even (of_int n) = n"
  by (simp add: round_half_even_def)

lemma round_half_even_cases:
  "round_half_even x = \<lfloor>x\<rfloor> \<and> x - of_int \<lfloor>x\<rfloor> \<le> 1 / 2
   \<or> round_half_even x = \<lfloor>x\<rfloor> + 1 \<and> 1 / 2 \<le> x - of_int \<lfloor>x\<rfloor>"
  by (auto simp: round_half_even_def Let_def)

lemma round_half_even_upper: "of_int (round_half_even x) \<le> x + 1 / 2"
proof -
  consider (down) "round_half_even x = \<lfloor>x\<rfloor>"
    | (up) "round_half_even x = \<lfloor>x\<rfloor> + 1" "1 / 2 \<le> x - of_int \<lfloor>x\<rfloor>"
    using round_half_even_cases [of x] by blast
  then show ?thesis
  proof cases
    case down
    have "of_int \<lfloor>x\<rfloor> \<le> x" by simp
    then have "of_int \<lfloor>x\<rfloor> \<le> x + 1 / 2" by linarith
    then show ?thesis by (simp only: down)
  next
    case up
    have "of_int (\<lfloor>x\<rfloor> + 1) = (of_int \<lfloor>x\<rfloor> :: rat) + 1" by simp
    then have "of_int (\<lfloor>x\<rfloor> + 1) \<le> x + 1 / 2" using up(2) by linarith
    then show ?thesis by (simp only: up(1))
  qed
qed

lemma round_half_even_lower: "x - 1 / 2 \<le> of_int (round_half_even x)"
proof -
  consider (down) "round_half_even x = \<lfloor>x\<rfloor>" "x - of_int \<lfloor>x\<rfloor> \<le> 1 / 2"
    | (up) "round_half_even x = \<lfloor>x\<rfloor> + 1"
    using round_half_even_cases [of x] by blast
  then show ?thesis
  proof cases
    case down
    have "x - 1 / 2 \<le> of_int \<lfloor>x\<rfloor>" using down(2) by linarith
    then show ?thesis by (simp only: down(1))
  next
    case up
    have "x < of_int \<lfloor>x\<rfloor> + 1" by linarith
    moreover have "of_int (\<lfloor>x\<rfloor> + 1) = (of_int \<lfloor>x\<rfloor> :: rat) + 1" by simp
    ultimately have "x - 1 / 2 \<le> of_int (\<lfloor>x\<rfloor> + 1)" by linarith
    then show ?thesis by (simp only: up)
  qed
qed

lemma round_half_even_error: "\<bar>of_int (round_half_even x) - x\<bar> \<le> 1 / 2"
  using round_half_even_upper [of x] round_half_even_lower [of x] by linarith

lemma round_half_even_mono:
  assumes "x \<le> y"
  shows "round_half_even x \<le> round_half_even y"
proof (cases "\<lfloor>x\<rfloor> = \<lfloor>y\<rfloor>")
  case True
  have "x - of_int \<lfloor>x\<rfloor> \<le> y - of_int \<lfloor>x\<rfloor>" using assms by simp
  then show ?thesis
    using True by (auto simp: round_half_even_def Let_def)
next
  case False
  then have "\<lfloor>x\<rfloor> + 1 \<le> \<lfloor>y\<rfloor>" using floor_mono [OF assms] by linarith
  moreover have "round_half_even x \<le> \<lfloor>x\<rfloor> + 1" using round_half_even_cases [of x] by auto
  moreover have "\<lfloor>y\<rfloor> \<le> round_half_even y" using round_half_even_cases [of y] by auto
  ultimately show ?thesis by linarith
qed

lemma round_half_even_ge: "of_int n \<le> x \<Longrightarrow> n \<le> round_half_even x"
  using round_half_even_mono [of "of_int n" x] by simp

lemma round_half_even_le: "x \<le> of_int n \<Longrightarrow> round_half_even x \<le> n"
  using round_half_even_mono [of x "of_int n"] by simp

lemma round_half_even_ge_strict:
  assumes "of_int n - 1 / 2 < x"
  shows "n \<le> round_half_even x"
proof -
  have "of_int n - 1 < (of_int (round_half_even x) :: rat)"
    using round_half_even_lower [of x] assms by linarith
  then have "(of_int (n - 1) :: rat) < of_int (round_half_even x)" by simp
  then have "n - 1 < round_half_even x" by (simp only: of_int_less_iff)
  then show ?thesis by simp
qed

lemma round_half_even_le_strict:
  assumes "x < of_int n + 1 / 2"
  shows "round_half_even x \<le> n"
proof -
  have "(of_int (round_half_even x) :: rat) < of_int n + 1"
    using round_half_even_upper [of x] assms by linarith
  then have "(of_int (round_half_even x) :: rat) < of_int (n + 1)" by simp
  then have "round_half_even x < n + 1" by (simp only: of_int_less_iff)
  then show ?thesis by simp
qed

lemma float_exponent_ge: "- 1074 \<le> float_exponent x"
  by (simp add: float_exponent_def)

lemma float_exponent_ge_ilog2: "ilog2 \<bar>x\<bar> - 52 \<le> float_exponent x"
  by (simp add: float_exponent_def)

lemma float_exponent_mono:
  assumes "0 < x" "x \<le> y"
  shows "float_exponent x \<le> float_exponent y"
proof -
  have "ilog2 \<bar>x\<bar> \<le> ilog2 \<bar>y\<bar>" using ilog2_mono [of x y] assms by simp
  then show ?thesis by (simp add: float_exponent_def)
qed

lemma fl_0 [simp]: "fl 0 = 0"
  by (simp add: fl_def)

lemma fl_nonneg:
  assumes "0 \<le> x"
  shows "0 \<le> fl x"
proof (cases "x = 0")
  case True
  then show ?thesis by simp
next
  case False
  have "0 \<le> x / 2 powi float_exponent x" using assms by simp
  then have "0 \<le> round_half_even (x / 2 powi float_exponent x)"
    using round_half_even_ge [of 0] by simp
  then show ?thesis using False by (simp add: fl_def)
qed

lemma fl_exact:
  assumes m: "\<bar>m\<bar> < 2 ^ 53" and e: "- 1074 \<le> e"
  shows "fl (of_int m * 2 powi e) = of_int m * 2 powi e"
proof (cases "m = 0")
  case True
  then show ?thesis by simp
next
  case False
  define x :: rat where "x = of_int m * 2 powi e"
  have x0: "x \<noteq> 0" using False by (simp add: x_def)
  have ax: "\<bar>x\<bar> = of_int \<bar>m\<bar> * 2 powi e" by (simp add: x_def abs_mult)
  have "(of_int \<bar>m\<bar> :: rat) < of_int (2 ^ 53)" using m by (simp only: of_int_less_iff)
  then have "(of_int \<bar>m\<bar> :: rat) < 2 powi 53" by simp
  then have "\<bar>x\<bar> < 2 powi 53 * 2 powi e" unfolding ax by (simp add: mult_strict_right_mono)
  then have lt: "\<bar>x\<bar> < 2 powi (53 + e)" by (simp add: power_int_add)
  have "(2::rat) powi (ilog2 \<bar>x\<bar>) < 2 powi (53 + e)"
    using ilog2_bounds(1) [of "\<bar>x\<bar>"] x0 lt by simp
  then have "ilog2 \<bar>x\<bar> < 53 + e" by (simp add: two_powi_less_iff)
  then have fe: "float_exponent x \<le> e" using e by (simp add: float_exponent_def)
  define fe where "fe = float_exponent x"
  define d where "d = nat (e - fe)"
  have ed: "e = fe + int d" using fe by (simp add: d_def fe_def)
  have pe: "(2::rat) powi e = 2 powi fe * 2 ^ d"
    by (subst ed) (simp add: power_int_add)
  have nz: "(2::rat) powi fe \<noteq> 0" by simp
  have "x = of_int (m * 2 ^ d) * 2 powi fe"
    unfolding x_def pe by simp
  then have q: "x / 2 powi fe = of_int (m * 2 ^ d)"
    by simp
  have "fl x = of_int (round_half_even (x / 2 powi fe)) * 2 powi fe"
    using x0 by (simp add: fl_def fe_def)
  also have "\<dots> = of_int (m * 2 ^ d) * 2 powi fe"
    by (simp only: q round_half_even_of_int)
  also have "\<dots> = of_int m * (2 powi fe * 2 ^ d)" by simp
  also have "\<dots> = of_int m * 2 powi e" by (simp only: pe)
  finally show ?thesis by (simp only: x_def)
qed

lemma fl_of_int:
  assumes "\<bar>n\<bar> < 2 ^ 53"
  shows "fl (of_int n) = of_int n"
  using fl_exact [OF assms, of 0] by simp

lemma fl_unfold:
  "x \<noteq> 0 \<Longrightarrow>
   fl x = of_int (round_half_even (x / 2 powi float_exponent x)) * 2 powi float_exponent x"
  by (simp add: fl_def)

lemma grid_split:
  assumes "e \<le> j"
  shows "(of_int n :: rat) * 2 powi j = of_int (n * 2 ^ nat (j - e)) * 2 powi e"
proof -
  have "j = e + int (nat (j - e))" using assms by simp
  then have "(2::rat) powi j = 2 powi e * 2 ^ nat (j - e)"
    by (metis power_int_add power_int_of_nat zero_neq_numeral)
  then show ?thesis by simp
qed

lemma fl_le_grid:
  assumes "float_exponent x \<le> j" "x \<le> of_int n * 2 powi j"
  shows "fl x \<le> of_int n * 2 powi j"
proof (cases "x = 0")
  case True
  then show ?thesis using assms(2) by simp
next
  case False
  define e where "e = float_exponent x"
  define N where "N = n * 2 ^ nat (j - e)"
  have g: "(of_int n :: rat) * 2 powi j = of_int N * 2 powi e"
    unfolding N_def by (rule grid_split) (use assms(1) in \<open>simp add: e_def\<close>)
  have p: "(0::rat) < 2 powi e" by simp
  have "x \<le> of_int N * 2 powi e" using assms(2) g by simp
  then have "x / 2 powi e \<le> of_int N" using p by (simp add: pos_divide_le_eq)
  then have "round_half_even (x / 2 powi e) \<le> N" by (rule round_half_even_le)
  then have "(of_int (round_half_even (x / 2 powi e)) :: rat) \<le> of_int N"
    by (simp only: of_int_le_iff)
  then have "(of_int (round_half_even (x / 2 powi e)) :: rat) * 2 powi e \<le> of_int N * 2 powi e"
    using p by (simp only: mult_le_cancel_right_pos)
  then show ?thesis using fl_unfold [OF False] g by (simp add: e_def)
qed

lemma fl_ge_grid:
  assumes "float_exponent x \<le> j" "of_int n * 2 powi j \<le> x"
  shows "of_int n * 2 powi j \<le> fl x"
proof (cases "x = 0")
  case True
  then show ?thesis using assms(2) by simp
next
  case False
  define e where "e = float_exponent x"
  define N where "N = n * 2 ^ nat (j - e)"
  have g: "(of_int n :: rat) * 2 powi j = of_int N * 2 powi e"
    unfolding N_def by (rule grid_split) (use assms(1) in \<open>simp add: e_def\<close>)
  have p: "(0::rat) < 2 powi e" by simp
  have "of_int N * 2 powi e \<le> x" using assms(2) g by simp
  then have "of_int N \<le> x / 2 powi e" using p by (simp add: pos_le_divide_eq)
  then have "N \<le> round_half_even (x / 2 powi e)" by (rule round_half_even_ge)
  then have "(of_int N :: rat) \<le> of_int (round_half_even (x / 2 powi e))"
    by (simp only: of_int_le_iff)
  then have "(of_int N :: rat) * 2 powi e \<le> of_int (round_half_even (x / 2 powi e)) * 2 powi e"
    using p by (simp only: mult_le_cancel_right_pos)
  then show ?thesis using fl_unfold [OF False] g by (simp add: e_def)
qed

lemma fl_mono:
  assumes "0 \<le> x" "x \<le> y"
  shows "fl x \<le> fl y"
proof (cases "x = 0")
  case True
  then show ?thesis using fl_nonneg [of y] assms by simp
next
  case False
  then have x: "0 < x" and y: "0 < y" using assms by simp_all
  have xn: "x \<noteq> 0" and yn: "y \<noteq> 0" using x y by simp_all
  have le: "float_exponent x \<le> float_exponent y" by (rule float_exponent_mono [OF x assms(2)])
  show ?thesis
  proof (cases "float_exponent x = float_exponent y")
    case True
    define e where "e = float_exponent y"
    have p: "(0::rat) < 2 powi e" by simp
    have "x / 2 powi e \<le> y / 2 powi e" using assms(2) p by (simp add: divide_right_mono)
    then have "round_half_even (x / 2 powi e) \<le> round_half_even (y / 2 powi e)"
      by (rule round_half_even_mono)
    then have "(of_int (round_half_even (x / 2 powi e)) :: rat)
                 \<le> of_int (round_half_even (y / 2 powi e))"
      by (simp only: of_int_le_iff)
    then have "(of_int (round_half_even (x / 2 powi e)) :: rat) * 2 powi e
                 \<le> of_int (round_half_even (y / 2 powi e)) * 2 powi e"
      using p by (simp only: mult_le_cancel_right_pos)
    then show ?thesis
      using fl_unfold [OF xn] fl_unfold [OF yn] True by (simp add: e_def)
  next
    case False
    then have lt: "float_exponent x < float_exponent y" using le by simp
    define k where "k = ilog2 y"
    have ax: "\<bar>x\<bar> = x" and ay: "\<bar>y\<bar> = y" using x y by simp_all
    have "- 1074 < float_exponent y" using lt float_exponent_ge [of x] by linarith
    then have ey: "float_exponent y = k - 52"
      unfolding float_exponent_def ay k_def by linarith
    have kx: "ilog2 x < k"
    proof (rule ccontr)
      assume "\<not> ilog2 x < k"
      then have "float_exponent y \<le> float_exponent x"
        unfolding float_exponent_def ax ay k_def by linarith
      with lt show False by simp
    qed
    have "(2::rat) powi (ilog2 x + 1) \<le> 2 powi k" using kx by (simp add: two_powi_le_iff)
    then have xP: "x \<le> of_int 1 * 2 powi k" using ilog2_bounds(2) [OF x] by simp
    have Py: "of_int 1 * 2 powi k \<le> y" using ilog2_bounds(1) [OF y] by (simp add: k_def)
    have "fl x \<le> of_int 1 * 2 powi k"
      by (rule fl_le_grid [OF _ xP]) (use lt ey in simp)
    moreover have "of_int 1 * 2 powi k \<le> fl y"
      by (rule fl_ge_grid [OF _ Py]) (use ey in simp)
    ultimately show ?thesis by simp
  qed
qed

lemma fl_le_of_int:
  assumes "0 \<le> x" "x \<le> of_int n" "n < 2 ^ 53"
  shows "fl x \<le> of_int n"
proof -
  have "0 \<le> (of_int n :: rat)" using assms by simp
  then have "0 \<le> n" by simp
  then have "\<bar>n\<bar> < 2 ^ 53" using assms(3) by simp
  then have "fl (of_int n) = of_int n" by (rule fl_of_int)
  then show ?thesis using fl_mono [OF assms(1,2)] by simp
qed

lemma fl_ge_of_int:
  assumes "of_int n \<le> x" "0 \<le> n" "n < 2 ^ 53"
  shows "of_int n \<le> fl x"
proof -
  have "\<bar>n\<bar> < 2 ^ 53" using assms by simp
  then have "fl (of_int n) = of_int n" by (rule fl_of_int)
  moreover have "0 \<le> (of_int n :: rat)" using assms(2) by simp
  ultimately show ?thesis using fl_mono [of "of_int n" x] assms(1) by simp
qed

lemma fl_error:
  assumes "x \<noteq> 0"
  shows "\<bar>fl x - x\<bar> \<le> 2 powi float_exponent x / 2"
proof -
  define e where "e = float_exponent x"
  define q where "q = x / 2 powi e"
  have p: "(0::rat) < 2 powi e" by simp
  have xq: "x = q * 2 powi e" by (simp add: q_def)
  have f: "fl x = of_int (round_half_even q) * 2 powi e"
    using fl_unfold [OF assms] by (simp add: e_def q_def)
  have "fl x - q * 2 powi e = (of_int (round_half_even q) - q) * 2 powi e"
    by (simp only: f left_diff_distrib)
  then have "fl x - x = (of_int (round_half_even q) - q) * 2 powi e"
    by (simp only: xq [symmetric])
  then have "\<bar>fl x - x\<bar> = \<bar>of_int (round_half_even q) - q\<bar> * 2 powi e"
    by (simp add: abs_mult)
  also have "\<dots> \<le> 1 / 2 * 2 powi e"
    using round_half_even_error [of q] p by (simp only: mult_le_cancel_right_pos)
  finally show ?thesis by (simp add: e_def)
qed

lemma ilog2_ge:
  assumes "2 powi k \<le> x"
  shows "k \<le> ilog2 x"
proof -
  have x: "0 < x" using assms zero_less_power_int [of "2::rat" k] by linarith
  have "(2::rat) powi k < 2 powi (ilog2 x + 1)" using ilog2_bounds(2) [OF x] assms by simp
  then have "k < ilog2 x + 1" by (simp add: two_powi_less_iff)
  then show ?thesis by simp
qed

lemma ilog2_less:
  assumes "0 < x" "x < 2 powi k"
  shows "ilog2 x < k"
proof -
  have "(2::rat) powi (ilog2 x) < 2 powi k" using ilog2_bounds(1) [OF assms(1)] assms(2) by simp
  then show ?thesis by (simp add: two_powi_less_iff)
qed

lemma fl_rel_error:
  assumes "2 powi (- 1022) \<le> x"
  shows "\<bar>fl x - x\<bar> \<le> x / 2 ^ 53"
proof -
  have x: "0 < x" using assms zero_less_power_int [of "2::rat" "- 1022"] by linarith
  have k: "- 1022 \<le> ilog2 x" by (rule ilog2_ge [OF assms])
  have ax: "\<bar>x\<bar> = x" using x by simp
  have e: "float_exponent x = ilog2 x - 52" using k by (simp add: float_exponent_def ax)
  have "(2::rat) powi (ilog2 x - 52) = 2 powi (ilog2 x) / 2 powi 52"
    by (rule power_int_diff) simp
  then have "(2::rat) powi (ilog2 x - 52) / 2 = 2 powi (ilog2 x) / 2 ^ 53"
    by simp
  also have "\<dots> \<le> x / 2 ^ 53"
    using ilog2_bounds(1) [OF x] by (simp add: divide_right_mono)
  finally show ?thesis using fl_error [of x] x e by simp
qed

lemma fl_abs_le:
  assumes "0 \<le> x" "x \<le> 2 ^ 1023"
  shows "\<bar>fl x\<bar> \<le> 2 ^ 1023"
proof -
  have "fl x \<le> fl (of_int 1 * 2 powi 1023)" using fl_mono [OF assms(1)] assms(2) by simp
  also have "\<dots> = of_int 1 * 2 powi 1023" by (rule fl_exact) simp_all
  finally show ?thesis using fl_nonneg [OF assms(1)] by simp
qed

lemma not_overflows:
  assumes "0 \<le> x" "x \<le> 2 ^ 1023"
  shows "\<not> overflows x"
proof -
  have "(2::rat) ^ 1023 < 2 ^ 1024" by (rule power_strict_increasing) simp_all
  then show ?thesis using fl_abs_le [OF assms] unfolding overflows_def by linarith
qed

section \<open>Properties of img.py\<close>

lemma put_all_Nil: "put_all [] c p = p"
  by (simp add: put_all_def)

lemma put_all_append: "put_all ps2 c (put_all ps1 c p) = put_all (ps1 @ ps2) c p"
  by (auto simp: put_all_def fun_eq_iff)

lemma in_image_put_all: "in_image (put_all ps c p) = in_image p"
  by (simp add: put_all_def in_image_def)

lemma setitem_put_all: "xy \<in> in_image p \<Longrightarrow> setitem xy c p = Inr (put_all [xy] c p)"
  by (cases xy) (auto simp: setitem_def put_all_def in_image_def fun_eq_iff Let_def)

lemma for_each_append:
  "for_each (xs @ ys) body s =
     (case for_each xs body s of Inl e \<Rightarrow> Inl e | Inr s' \<Rightarrow> for_each ys body s')"
  by (induction xs arbitrary: s) (auto split: sum.splits)

lemma column_loop:
  "(\<forall>y \<in> set ys. (x, y) \<in> in_image p) \<Longrightarrow>
   for_each ys (\<lambda>y. setitem (x, y) c) p = Inr (put_all (map (Pair x) ys) c p)"
proof (induction ys arbitrary: p)
  case Nil
  show ?case by (simp add: put_all_Nil)
next
  case (Cons y ys)
  have a: "setitem (x, y) c p = Inr (put_all [(x, y)] c p)"
    using Cons.prems by (simp add: setitem_put_all)
  have b: "\<forall>y' \<in> set ys. (x, y') \<in> in_image (put_all [(x, y)] c p)"
    using Cons.prems by (simp add: in_image_put_all)
  show ?case
    using Cons.IH [OF b] a by (simp add: put_all_append)
qed

lemma square_loop:
  "(\<forall>q \<in> set (List.product xs ys). q \<in> in_image p) \<Longrightarrow>
   for_each xs (\<lambda>x. for_each ys (\<lambda>y. setitem (x, y) c)) p
     = Inr (put_all (List.product xs ys) c p)"
proof (induction xs arbitrary: p)
  case Nil
  show ?case by (simp add: put_all_Nil)
next
  case (Cons x xs)
  have a: "for_each ys (\<lambda>y. setitem (x, y) c) p = Inr (put_all (map (Pair x) ys) c p)"
    using Cons.prems by (intro column_loop) auto
  have b: "\<forall>q \<in> set (List.product xs ys). q \<in> in_image (put_all (map (Pair x) ys) c p)"
    using Cons.prems by (auto simp: in_image_put_all)
  show ?case
    using Cons.IH [OF b] a by (simp add: put_all_append)
qed

lemma set_py_range: "set (py_range a b) = {a ..< b}"
  by (auto simp: py_range_def)

lemma distinct_py_range: "distinct (py_range a b)"
  by (simp add: py_range_def)

lemma set_square_list: "set (square_list bs bx by) = block_square bs bx by"
  by (simp add: square_list_def block_square_def set_py_range)

lemma distinct_square_list: "distinct (square_list bs bx by)"
  by (simp add: square_list_def distinct_product distinct_py_range)

lemma paint_block_eq:
  assumes "block_square bs bx by \<subseteq> in_image p"
  shows "paint_block bs bx by (g, p) =
           Inr (snd (random_color g), put_all (square_list bs bx by) (fst (random_color g)) p)"
proof -
  have "\<forall>q \<in> set (square_list bs bx by). q \<in> in_image p"
    using assms by (auto simp: set_square_list)
  then show ?thesis
    unfolding paint_block_def square_list_def
    by (simp add: square_loop Let_def split: prod.splits)
qed

lemma coord_div_iff:
  "0 < (bs::int) \<Longrightarrow> (bx * bs \<le> x \<and> x < (bx + 1) * bs) \<longleftrightarrow> x div bs = bx"
proof
  assume bs: "0 < bs" and h: "bx * bs \<le> x \<and> x < (bx + 1) * bs"
  have "x = bs * bx + (x - bx * bs)" by (simp add: algebra_simps)
  moreover have "0 \<le> x - bx * bs" using h by simp
  moreover have "x - bx * bs < bs" using h by (simp add: algebra_simps)
  ultimately show "x div bs = bx" by (rule int_div_pos_eq)
next
  assume bs: "0 < bs" and h: "x div bs = bx"
  have "x = bs * (x div bs) + x mod bs" by simp
  moreover have "0 \<le> x mod bs" "x mod bs < bs" using bs by simp_all
  ultimately show "bx * bs \<le> x \<and> x < (bx + 1) * bs"
    using h by (auto simp: algebra_simps)
qed

lemma block_square_iff:
  "0 < bs \<Longrightarrow> (x, y) \<in> block_square bs bx by \<longleftrightarrow> x div bs = bx \<and> y div bs = by"
  using coord_div_iff [of bs bx x] coord_div_iff [of bs "by" y]
  by (auto simp: block_square_def)

lemma block_square_disjoint:
  "0 < bs \<Longrightarrow> (bx, by) \<noteq> (bx', by') \<Longrightarrow>
   block_square bs bx by \<inter> block_square bs bx' by' = {}"
  by (auto simp: block_square_iff)

lemma block_square_in_image:
  assumes "0 < bs" "0 \<le> bx" "bx < w" "0 \<le> by" "by < h"
  shows "block_square bs bx by \<subseteq> {0 ..< w * bs} \<times> {0 ..< h * bs}"
proof
  fix q assume q: "q \<in> block_square bs bx by"
  obtain x y where xy: "q = (x, y)" by (cases q)
  have x: "bx * bs \<le> x" "x < (bx + 1) * bs" and y: "by * bs \<le> y" "y < (by + 1) * bs"
    using q xy by (auto simp: block_square_def)
  have "0 \<le> bx * bs" "0 \<le> by * bs" using assms by simp_all
  moreover have "(bx + 1) * bs \<le> w * bs" "(by + 1) * bs \<le> h * bs"
    using assms by (simp_all add: mult_right_mono)
  ultimately show "q \<in> {0 ..< w * bs} \<times> {0 ..< h * bs}"
    using x y xy by auto
qed

lemma for_each_map:
  "for_each (map f xs) body s = for_each xs (\<lambda>x. body (f x)) s"
  by (induction xs arbitrary: s) (auto split: sum.splits)

lemma for_each_product:
  "for_each xs (\<lambda>x. for_each ys (\<lambda>y. body x y)) s
     = for_each (List.product xs ys) (\<lambda>(x, y). body x y) s"
  by (induction xs arbitrary: s) (auto simp: for_each_append for_each_map split: sum.splits)

lemma pix_put_all_other: "q \<notin> set ps \<Longrightarrow> pix (target (put_all ps c p)) q = pix (target p) q"
  by (simp add: put_all_def)

lemma pix_put_all_in: "q \<in> set ps \<Longrightarrow> pix (target (put_all ps c p)) q = c"
  by (simp add: put_all_def)

lemma assigned_put_all: "assigned (put_all ps c p) = assigned p @ map (\<lambda>q. (q, c)) ps"
  by (simp add: put_all_def)

lemma blocks_loop:
  assumes "0 < bs" "distinct bl"
    and "\<forall>bx by. (bx, by) \<in> set bl \<longrightarrow> block_square bs bx by \<subseteq> in_image p"
  shows "\<exists>g' p'. for_each bl (\<lambda>(bx, by). paint_block bs bx by) (g, p) = Inr (g', p')
           \<and> xsize (target p') = xsize (target p) \<and> ysize (target p') = ysize (target p)
           \<and> (\<exists>new. assigned p' = assigned p @ new
                \<and> map fst new = concat (map (\<lambda>(bx, by). square_list bs bx by) bl)
                \<and> (\<forall>a \<in> set new. pix (target p') (fst a) = snd a))
           \<and> (\<forall>q. (\<forall>bx by. (bx, by) \<in> set bl \<longrightarrow> q \<notin> block_square bs bx by)
                  \<longrightarrow> pix (target p') q = pix (target p) q)
           \<and> (\<forall>bx by. (bx, by) \<in> set bl
                  \<longrightarrow> (\<exists>c. \<forall>q \<in> block_square bs bx by. pix (target p') q = c))"
  using assms
proof (induction bl arbitrary: g p)
  case Nil
  show ?case by simp
next
  case (Cons b bl)
  obtain bx "by" where b: "b = (bx, by)" by (cases b)
  define c where "c = fst (random_color g)"
  define g1 where "g1 = snd (random_color g)"
  define p1 where "p1 = put_all (square_list bs bx by) c p"
  have sq: "block_square bs bx by \<subseteq> in_image p" using Cons.prems b by simp
  have step: "paint_block bs bx by (g, p) = Inr (g1, p1)"
    unfolding c_def g1_def p1_def by (rule paint_block_eq [OF sq])
  have im1: "in_image p1 = in_image p" by (simp add: p1_def in_image_put_all)
  have sz1: "xsize (target p1) = xsize (target p)" "ysize (target p1) = ysize (target p)"
    by (simp_all add: p1_def put_all_def)
  have d: "distinct bl" using Cons.prems(2) by simp
  have "\<forall>bx by. (bx, by) \<in> set bl \<longrightarrow> block_square bs bx by \<subseteq> in_image p1"
    using Cons.prems(3) im1 by simp
  from Cons.IH [OF \<open>0 < bs\<close> d this, of g1]
  obtain g' p' where r: "for_each bl (\<lambda>(bx, by). paint_block bs bx by) (g1, p1) = Inr (g', p')"
    and sz: "xsize (target p') = xsize (target p1)" "ysize (target p') = ysize (target p1)"
    and as0: "\<exists>new. assigned p' = assigned p1 @ new
                \<and> map fst new = concat (map (\<lambda>(bx, by). square_list bs bx by) bl)
                \<and> (\<forall>a \<in> set new. pix (target p') (fst a) = snd a)"
    and fr: "\<forall>q. (\<forall>bx by. (bx, by) \<in> set bl \<longrightarrow> q \<notin> block_square bs bx by)
                  \<longrightarrow> pix (target p') q = pix (target p1) q"
    and un: "\<forall>bx by. (bx, by) \<in> set bl
                  \<longrightarrow> (\<exists>c. \<forall>q \<in> block_square bs bx by. pix (target p') q = c)"
    by blast
  from as0 obtain new where as: "assigned p' = assigned p1 @ new"
    and nf: "map fst new = concat (map (\<lambda>(bx, by). square_list bs bx by) bl)"
    and nc: "\<forall>a \<in> set new. pix (target p') (fst a) = snd a"
    by blast
  have notin: "\<forall>bx' by'. (bx', by') \<in> set bl \<longrightarrow> q \<notin> block_square bs bx' by'"
    if "q \<in> block_square bs bx by" for q
  proof (intro allI impI)
    fix bx' by' assume "(bx', by') \<in> set bl"
    then have "(bx, by) \<noteq> (bx', by')" using Cons.prems(2) b by auto
    then show "q \<notin> block_square bs bx' by'"
      using that block_square_disjoint [OF \<open>0 < bs\<close>, of bx "by" bx' by'] by blast
  qed
  have own: "\<forall>q \<in> block_square bs bx by. pix (target p') q = c"
  proof
    fix q assume q: "q \<in> block_square bs bx by"
    have "pix (target p') q = pix (target p1) q" using fr notin [OF q] by blast
    also have "\<dots> = c" using q by (simp add: p1_def pix_put_all_in set_square_list)
    finally show "pix (target p') q = c" .
  qed
  have frame: "pix (target p') q = pix (target p) q"
    if "\<forall>bx by. (bx, by) \<in> set (b # bl) \<longrightarrow> q \<notin> block_square bs bx by" for q
  proof -
    have "\<forall>bx by. (bx, by) \<in> set bl \<longrightarrow> q \<notin> block_square bs bx by" using that by simp
    then have "pix (target p') q = pix (target p1) q" using fr by blast
    also have "\<dots> = pix (target p) q"
      using that b by (simp add: p1_def pix_put_all_other set_square_list)
    finally show ?thesis .
  qed
  have uniform: "\<exists>c. \<forall>q \<in> block_square bs bx' by'. pix (target p') q = c"
    if "(bx', by') \<in> set (b # bl)" for bx' by'
  proof (cases "(bx', by') = (bx, by)")
    case True
    then show ?thesis using own by blast
  next
    case False
    then have "(bx', by') \<in> set bl" using that b by auto
    then show ?thesis using un by blast
  qed
  have res: "for_each (b # bl) (\<lambda>(bx, by). paint_block bs bx by) (g, p) = Inr (g', p')"
    using step r b by simp
  define new1 where "new1 = map (\<lambda>q. (q, c)) (square_list bs bx by)"
  have as1: "assigned p' = assigned p @ (new1 @ new)"
    using as by (simp add: p1_def assigned_put_all new1_def)
  have nf1: "map fst (new1 @ new)
               = concat (map (\<lambda>(bx, by). square_list bs bx by) (b # bl))"
    using nf b by (simp add: new1_def comp_def)
  have nc1: "\<forall>a \<in> set (new1 @ new). pix (target p') (fst a) = snd a"
  proof
    fix a assume "a \<in> set (new1 @ new)"
    then consider "a \<in> set new1" | "a \<in> set new" by auto
    then show "pix (target p') (fst a) = snd a"
    proof cases
      case 1
      then obtain q where q: "q \<in> set (square_list bs bx by)" and a: "a = (q, c)"
        by (auto simp: new1_def)
      have "q \<in> block_square bs bx by" using q by (simp add: set_square_list)
      then show ?thesis using own a by simp
    next
      case 2
      then show ?thesis using nc by blast
    qed
  qed
  have as': "\<exists>new. assigned p' = assigned p @ new
                \<and> map fst new = concat (map (\<lambda>(bx, by). square_list bs bx by) (b # bl))
                \<and> (\<forall>a \<in> set new. pix (target p') (fst a) = snd a)"
    using as1 nf1 nc1 by blast
  have sz': "xsize (target p') = xsize (target p)" "ysize (target p') = ysize (target p)"
    using sz sz1 by simp_all
  show ?case
    using res sz' as' frame uniform by blast
qed



lemma block_square_nonneg:
  assumes "0 \<le> bx" "0 \<le> by" "(x, y) \<in> block_square bs bx by"
  shows "0 \<le> x \<and> 0 \<le> y"
proof -
  have x: "bx * bs \<le> x" "x < (bx + 1) * bs" and y: "by * bs \<le> y" "y < (by + 1) * bs"
    using assms(3) by (auto simp: block_square_def)
  have "bx * bs < (bx + 1) * bs" using x by simp
  then have bs: "0 < bs" by (simp add: algebra_simps)
  have "0 \<le> bx * bs" "0 \<le> by * bs" using assms(1,2) bs by simp_all
  then show ?thesis using x y by simp
qed

lemma setitem_outside:
  assumes "0 \<le> x" "0 \<le> y" "(x, y) \<notin> in_image p"
  shows "setitem (x, y) c p = Inl (IndexError ''image index out of range'')"
  using assms by (auto simp: setitem_def in_image_def Let_def)

lemma pixel_loop:
  assumes "\<forall>q \<in> set ps. 0 \<le> fst q \<and> 0 \<le> snd q"
  shows "for_each ps (\<lambda>q. setitem q c) p =
     (if set ps \<subseteq> in_image p then Inr (put_all ps c p)
      else Inl (IndexError ''image index out of range''))"
  using assms
proof (induction ps arbitrary: p)
  case Nil
  show ?case by (simp add: put_all_Nil)
next
  case (Cons q ps)
  have rest: "\<forall>q \<in> set ps. 0 \<le> fst q \<and> 0 \<le> snd q" using Cons.prems by simp
  show ?case
  proof (cases "q \<in> in_image p")
    case True
    then show ?thesis
      by (simp add: setitem_put_all Cons.IH [OF rest] in_image_put_all put_all_append)
  next
    case False
    obtain x y where q: "q = (x, y)" by (cases q)
    have "0 \<le> x" "0 \<le> y" using Cons.prems q by simp_all
    then have "setitem q c p = Inl (IndexError ''image index out of range'')"
      using False unfolding q by (rule setitem_outside)
    with False show ?thesis by simp
  qed
qed

lemma paint_block_char:
  assumes "0 \<le> bx" "0 \<le> by"
  shows "paint_block bs bx by (g, p) =
     (if block_square bs bx by \<subseteq> in_image p
      then Inr (snd (random_color g), put_all (square_list bs bx by) (fst (random_color g)) p)
      else Inl (IndexError ''image index out of range''))"
proof -
  have nn: "\<forall>q \<in> set (square_list bs bx by). 0 \<le> fst q \<and> 0 \<le> snd q"
    using block_square_nonneg [OF assms] by (auto simp: set_square_list)
  have "for_each (py_range (bx * bs) ((bx + 1) * bs))
          (\<lambda>x. for_each (py_range (by * bs) ((by + 1) * bs)) (\<lambda>y. setitem (x, y) c)) p
        = for_each (square_list bs bx by) (\<lambda>q. setitem q c) p" for c
    by (simp add: for_each_product square_list_def case_prod_unfold)
  then show ?thesis
    unfolding paint_block_def
    by (simp add: pixel_loop [OF nn] set_square_list Let_def split: prod.splits)
qed

lemma count_list_distinct: "distinct xs \<Longrightarrow> x \<in> set xs \<Longrightarrow> count_list xs x = 1"
  by (induction xs) (auto simp: count_list_0_iff)

lemma block_square_nonempty: "0 < bs \<Longrightarrow> (bx * bs, by * bs) \<in> block_square bs bx by"
  by (simp add: block_square_iff)

lemma distinct_block_writes:
  assumes "0 < bs" "distinct bl"
  shows "distinct (concat (map (\<lambda>(bx, by). square_list bs bx by) bl))"
proof (rule distinct_concat)
  have "inj_on (\<lambda>(bx, by). square_list bs bx by) (set bl)"
  proof (rule inj_onI)
    fix b b' assume "b \<in> set bl" "b' \<in> set bl"
      and eq: "(case b of (bx, by) \<Rightarrow> square_list bs bx by)
             = (case b' of (bx, by) \<Rightarrow> square_list bs bx by)"
    obtain bx "by" bx' by' where b: "b = (bx, by)" "b' = (bx', by')"
      by (cases b, cases b')
    have "block_square bs bx by = block_square bs bx' by'"
      using eq b by (simp flip: set_square_list)
    then have "(bx * bs, by * bs) \<in> block_square bs bx' by'"
      using block_square_nonempty [OF \<open>0 < bs\<close>, of bx "by"] by simp
    then show "b = b'"
      using b \<open>0 < bs\<close> by (simp add: block_square_iff)
  qed
  then show "distinct (map (\<lambda>(bx, by). square_list bs bx by) bl)"
    using assms(2) by (simp add: distinct_map)
next
  fix ys assume "ys \<in> set (map (\<lambda>(bx, by). square_list bs bx by) bl)"
  then show "distinct ys" by (auto simp: distinct_square_list)
next
  fix ys zs
  assume ys: "ys \<in> set (map (\<lambda>(bx, by). square_list bs bx by) bl)"
    and zs: "zs \<in> set (map (\<lambda>(bx, by). square_list bs bx by) bl)" and ne: "ys \<noteq> zs"
  obtain bx "by" where y: "ys = square_list bs bx by" using ys by auto
  obtain bx' by' where z: "zs = square_list bs bx' by'" using zs by auto
  have "(bx, by) \<noteq> (bx', by')" using ne y z by auto
  then show "set ys \<inter> set zs = {}"
    using block_square_disjoint [OF \<open>0 < bs\<close>] y z by (simp add: set_square_list)
qed

lemma div_less_of_less_mult:
  assumes "0 < (bs::int)" "x < w * bs"
  shows "x div bs < w"
proof -
  have "(x div bs) * bs \<le> x" using coord_div_iff [OF assms(1), of "x div bs" x] by simp
  then have "(x div bs) * bs < w * bs" using assms(2) by simp
  then show ?thesis using assms(1) by (simp add: mult_less_cancel_right)
qed

lemma raster_block:
  assumes "0 < (bs::int)" "0 \<le> x" "x < w * bs" "0 \<le> y" "y < h * bs"
  shows "0 \<le> x div bs \<and> x div bs < w \<and> 0 \<le> y div bs \<and> y div bs < h"
proof -
  have "x div bs < w" "y div bs < h"
    using assms(1,3,5) by (auto intro: div_less_of_less_mult)
  moreover have "0 \<le> x div bs" "0 \<le> y div bs"
    using assms by (simp_all add: pos_imp_zdiv_nonneg_iff)
  ultimately show ?thesis by simp
qed

lemma paint_blocks_result:
  assumes "0 < bs" "0 < width" "0 < height"
    and "in_image p = {0 ..< width * bs} \<times> {0 ..< height * bs}"
  shows "\<exists>g' p'. paint_blocks width height bs (g, p) = Inr (g', p')
           \<and> xsize (target p') = xsize (target p) \<and> ysize (target p') = ysize (target p)
           \<and> (\<exists>new. assigned p' = assigned p @ new
                \<and> map fst new = concat (map (\<lambda>(bx, by). square_list bs bx by)
                      (List.product (py_range 0 width) (py_range 0 height)))
                \<and> (\<forall>a \<in> set new. pix (target p') (fst a) = snd a))
           \<and> (\<forall>q. q \<notin> in_image p \<longrightarrow> pix (target p') q = pix (target p) q)
           \<and> (\<forall>bx by. 0 \<le> bx \<and> bx < width \<and> 0 \<le> by \<and> by < height
                  \<longrightarrow> (\<exists>c. \<forall>q \<in> block_square bs bx by. pix (target p') q = c))"
proof -
  let ?bl = "List.product (py_range 0 width) (py_range 0 height)"
  have d: "distinct ?bl" by (simp add: distinct_product distinct_py_range)
  have inside: "\<forall>bx by. (bx, by) \<in> set ?bl \<longrightarrow> block_square bs bx by \<subseteq> in_image p"
    using block_square_in_image [OF \<open>0 < bs\<close>] assms(4) by (simp add: set_py_range)
  have eq: "paint_blocks width height bs (g, p)
          = for_each ?bl (\<lambda>(bx, by). paint_block bs bx by) (g, p)"
    by (simp add: paint_blocks_def for_each_product)
  from blocks_loop [OF \<open>0 < bs\<close> d inside, of g]
  obtain g' p' where r: "for_each ?bl (\<lambda>(bx, by). paint_block bs bx by) (g, p) = Inr (g', p')"
    and sz: "xsize (target p') = xsize (target p)" "ysize (target p') = ysize (target p)"
    and as: "\<exists>new. assigned p' = assigned p @ new
                \<and> map fst new = concat (map (\<lambda>(bx, by). square_list bs bx by) ?bl)
                \<and> (\<forall>a \<in> set new. pix (target p') (fst a) = snd a)"
    and fr: "\<forall>q. (\<forall>bx by. (bx, by) \<in> set ?bl \<longrightarrow> q \<notin> block_square bs bx by)
                  \<longrightarrow> pix (target p') q = pix (target p) q"
    and un: "\<forall>bx by. (bx, by) \<in> set ?bl
                  \<longrightarrow> (\<exists>c. \<forall>q \<in> block_square bs bx by. pix (target p') q = c)"
    by blast
  have "pix (target p') q = pix (target p) q" if "q \<notin> in_image p" for q
    using fr inside that by blast
  moreover have "\<exists>c. \<forall>q \<in> block_square bs bx by. pix (target p') q = c"
    if "0 \<le> bx \<and> bx < width \<and> 0 \<le> by \<and> by < height" for bx "by"
    using un that by (simp add: set_py_range)
  ultimately show ?thesis
    using eq r sz as by auto
qed

lemma set_all_writes:
  assumes "0 < bs"
  shows "set (concat (map (\<lambda>(bx, by). square_list bs bx by)
                (List.product (py_range 0 width) (py_range 0 height))))
         = {0 ..< width * bs} \<times> {0 ..< height * bs}" (is "?L = ?R")
proof
  show "?L \<subseteq> ?R"
  proof
    fix q assume "q \<in> ?L"
    then obtain bx "by" where b: "0 \<le> bx" "bx < width" "0 \<le> by" "by < height"
      and q: "q \<in> block_square bs bx by"
      by (auto simp: set_py_range set_square_list)
    show "q \<in> ?R"
      using block_square_in_image [OF \<open>0 < bs\<close> b] q by blast
  qed
  show "?R \<subseteq> ?L"
  proof
    fix q assume q: "q \<in> ?R"
    obtain x y where xy: "q = (x, y)" by (cases q)
    have b: "0 \<le> x div bs \<and> x div bs < width \<and> 0 \<le> y div bs \<and> y div bs < height"
      using raster_block [OF \<open>0 < bs\<close>, of x width y height] q xy by simp
    have "(x, y) \<in> block_square bs (x div bs) (y div bs)"
      using \<open>0 < bs\<close> by (simp add: block_square_iff)
    then have "\<exists>bx \<in> {0 ..< width}. \<exists>by \<in> {0 ..< height}. q \<in> block_square bs bx by"
      using b xy by (intro bexI [of _ "x div bs"] bexI [of _ "y div bs"]) simp_all
    then show "q \<in> ?L"
      by (auto simp: set_py_range set_square_list)
  qed
qed






lemma paint_block_frame:
  assumes "0 \<le> bx" "0 \<le> by" "paint_block bs bx by (g, p) = Inr (g', p')"
  shows "(\<forall>q. q \<notin> block_square bs bx by \<longrightarrow> pix (target p') q = pix (target p) q)
       \<and> (\<forall>q \<in> block_square bs bx by. pix (target p') q = fst (random_color g))
       \<and> (\<exists>ws. assigned p' = assigned p @ map (\<lambda>q. (q, fst (random_color g))) ws
              \<and> set ws = block_square bs bx by \<and> distinct ws)"
proof -
  have p': "p' = put_all (square_list bs bx by) (fst (random_color g)) p"
    using assms(3) by (simp add: paint_block_char [OF assms(1,2)] split: if_splits)
  have a: "\<forall>q. q \<notin> block_square bs bx by \<longrightarrow> pix (target p') q = pix (target p) q"
    unfolding p' by (simp add: pix_put_all_other set_square_list)
  have b: "\<forall>q \<in> block_square bs bx by. pix (target p') q = fst (random_color g)"
    unfolding p' by (simp add: pix_put_all_in set_square_list)
  have c: "assigned p' = assigned p @ map (\<lambda>q. (q, fst (random_color g))) (square_list bs bx by)
             \<and> set (square_list bs bx by) = block_square bs bx by
             \<and> distinct (square_list bs bx by)"
    unfolding p' by (simp add: assigned_put_all set_square_list distinct_square_list)
  from a b c show ?thesis by blast
qed

lemma unique_block:
  assumes "0 < bs" "0 < width" "0 < height"
    and "q \<in> {0 ..< width * bs} \<times> {0 ..< height * bs}"
  shows "\<exists>!b. 0 \<le> fst b \<and> fst b < width \<and> 0 \<le> snd b \<and> snd b < height
              \<and> q \<in> block_square bs (fst b) (snd b)"
proof -
  obtain x y where xy: "q = (x, y)" by (cases q)
  have b: "0 \<le> x div bs \<and> x div bs < width \<and> 0 \<le> y div bs \<and> y div bs < height"
    using raster_block [OF \<open>0 < bs\<close>, of x width y height] assms(4) xy by simp
  show ?thesis
  proof (rule ex1I [of _ "(x div bs, y div bs)"])
    show "0 \<le> fst (x div bs, y div bs) \<and> fst (x div bs, y div bs) < width
        \<and> 0 \<le> snd (x div bs, y div bs) \<and> snd (x div bs, y div bs) < height
        \<and> q \<in> block_square bs (fst (x div bs, y div bs)) (snd (x div bs, y div bs))"
      using b xy \<open>0 < bs\<close> by (simp add: block_square_iff)
  next
    fix b assume "0 \<le> fst b \<and> fst b < width \<and> 0 \<le> snd b \<and> snd b < height
              \<and> q \<in> block_square bs (fst b) (snd b)"
    then show "b = (x div bs, y div bs)"
      using xy \<open>0 < bs\<close> by (cases b) (simp add: block_square_iff)
  qed
qed

lemma paint_blocks_once:
  assumes "0 < bs" "0 < width" "0 < height"
    and "xsize img = nat (width * bs)" "ysize img = nat (height * bs)"
  shows "\<exists>g' p'. paint_blocks width height bs (g, load img) = Inr (g', p')
           \<and> set (map fst (assigned p')) = {0 ..< width * bs} \<times> {0 ..< height * bs}
           \<and> (\<forall>q \<in> {0 ..< width * bs} \<times> {0 ..< height * bs}.
                 count_list (map fst (assigned p')) q = 1)
           \<and> (\<forall>a \<in> set (assigned p'). pix (target p') (fst a) = snd a)"
proof -
  let ?bl = "List.product (py_range 0 width) (py_range 0 height)"
  let ?ws = "concat (map (\<lambda>(bx, by). square_list bs bx by) ?bl)"
  have nn: "0 \<le> width * bs" "0 \<le> height * bs" using assms by simp_all
  have im: "in_image (load img) = {0 ..< width * bs} \<times> {0 ..< height * bs}"
    using nn assms(4,5) by (simp add: in_image_def load_def)
  from paint_blocks_result [OF assms(1,2,3) im, of g]
  obtain g' p' new where r: "paint_blocks width height bs (g, load img) = Inr (g', p')"
    and as: "assigned p' = assigned (load img) @ new"
    and nf: "map fst new = ?ws"
    and nc: "\<forall>a \<in> set new. pix (target p') (fst a) = snd a"
    by blast
  have an: "assigned p' = new" using as by (simp add: load_def)
  have as': "map fst (assigned p') = ?ws" using an nf by simp
  have d: "distinct ?ws"
    by (rule distinct_block_writes [OF \<open>0 < bs\<close>]) (simp add: distinct_product distinct_py_range)
  have s: "set ?ws = {0 ..< width * bs} \<times> {0 ..< height * bs}"
    by (rule set_all_writes [OF \<open>0 < bs\<close>])
  have c: "count_list (map fst (assigned p')) q = 1"
    if "q \<in> {0 ..< width * bs} \<times> {0 ..< height * bs}" for q
  proof -
    have "q \<in> set ?ws" using that s by simp
    then show ?thesis unfolding as' by (rule count_list_distinct [OF d])
  qed
  have s': "set (map fst (assigned p')) = {0 ..< width * bs} \<times> {0 ..< height * bs}"
    unfolding as' by (rule s)
  have k: "pix (target p') (fst a) = snd a" if "a \<in> set (assigned p')" for a
    using nc that unfolding an by blast
  show ?thesis
    by (intro exI [of _ g'] exI [of _ p'] conjI ballI r s' c k)
qed




text \<open>
  Claim C10. Painting block \<open>(bx, by)\<close>, for \<open>bx\<close> and \<open>by\<close> from 0 as the loops give
  them, gives every pixel of its square
  \<open>[bx * block_size, (bx + 1) * block_size) \<times> [by * block_size, (by + 1) * block_size)\<close>
  the colour drawn for the block, assigns each of them once and no other, and leaves
  every other pixel as it was. For \<open>width\<close>, \<open>height\<close>, \<open>block_size\<close> at least 1
  every pixel of the raster lies in the square of exactly one block, every square lies
  inside the raster, and the loops of \<open>generate_random_image\<close> raise nothing and assign
  every pixel of the raster exactly once and no other coordinate; the raster
  they leave has at each pixel the colour of that assignment.
\<close>

theorem paint_block_frame_partition:
  assumes "1 \<le> width" "1 \<le> height" "1 \<le> block_size"
  shows "(\<forall>bx by g p g' p'.
            0 \<le> bx \<and> 0 \<le> by \<and> paint_block block_size bx by (g, p) = Inr (g', p') \<longrightarrow>
            (\<forall>q. q \<notin> block_square block_size bx by \<longrightarrow> pix (target p') q = pix (target p) q)
          \<and> (\<forall>q \<in> block_square block_size bx by. pix (target p') q = fst (random_color g))
          \<and> (\<exists>ws. assigned p' = assigned p @ map (\<lambda>q. (q, fst (random_color g))) ws
                 \<and> set ws = block_square block_size bx by \<and> distinct ws))
       \<and> (\<forall>q \<in> {0 ..< width * block_size} \<times> {0 ..< height * block_size}.
            \<exists>!b. 0 \<le> fst b \<and> fst b < width \<and> 0 \<le> snd b \<and> snd b < height
                \<and> q \<in> block_square block_size (fst b) (snd b))
       \<and> (\<forall>bx by. 0 \<le> bx \<and> bx < width \<and> 0 \<le> by \<and> by < height \<longrightarrow>
            block_square block_size bx by
              \<subseteq> {0 ..< width * block_size} \<times> {0 ..< height * block_size})
       \<and> (\<forall>img g. xsize img = nat (width * block_size) \<and> ysize img = nat (height * block_size) \<longrightarrow>
            (\<exists>g' p'. paint_blocks width height block_size (g, load img) = Inr (g', p')
               \<and> set (map fst (assigned p'))
                   = {0 ..< width * block_size} \<times> {0 ..< height * block_size}
               \<and> (\<forall>q \<in> {0 ..< width * block_size} \<times> {0 ..< height * block_size}.
                     count_list (map fst (assigned p')) q = 1)
               \<and> (\<forall>a \<in> set (assigned p'). pix (target p') (fst a) = snd a)))"
proof -
  have pos: "0 < block_size" "0 < width" "0 < height" using assms by simp_all
  have a: "\<forall>bx by g p g' p'.
            0 \<le> bx \<and> 0 \<le> by \<and> paint_block block_size bx by (g, p) = Inr (g', p') \<longrightarrow>
            (\<forall>q. q \<notin> block_square block_size bx by \<longrightarrow> pix (target p') q = pix (target p) q)
          \<and> (\<forall>q \<in> block_square block_size bx by. pix (target p') q = fst (random_color g))
          \<and> (\<exists>ws. assigned p' = assigned p @ map (\<lambda>q. (q, fst (random_color g))) ws
                 \<and> set ws = block_square block_size bx by \<and> distinct ws)"
    using paint_block_frame by blast
  have b: "\<forall>q \<in> {0 ..< width * block_size} \<times> {0 ..< height * block_size}.
            \<exists>!b. 0 \<le> fst b \<and> fst b < width \<and> 0 \<le> snd b \<and> snd b < height
                \<and> q \<in> block_square block_size (fst b) (snd b)"
    using unique_block [OF pos] by blast
  have c: "\<forall>bx by. 0 \<le> bx \<and> bx < width \<and> 0 \<le> by \<and> by < height \<longrightarrow>
            block_square block_size bx by
              \<subseteq> {0 ..< width * block_size} \<times> {0 ..< height * block_size}"
    using block_square_in_image [OF pos(1)] by blast
  have d: "\<forall>img g. xsize img = nat (width * block_size) \<and> ysize img = nat (height * block_size) \<longrightarrow>
            (\<exists>g' p'. paint_blocks width height block_size (g, load img) = Inr (g', p')
               \<and> set (map fst (assigned p'))
                   = {0 ..< width * block_size} \<times> {0 ..< height * block_size}
               \<and> (\<forall>q \<in> {0 ..< width * block_size} \<times> {0 ..< height * block_size}.
                     count_list (map fst (assigned p')) q = 1)
               \<and> (\<forall>a \<in> set (assigned p'). pix (target p') (fst a) = snd a))"
    using paint_blocks_once [OF pos] by blast
  from a b c d show ?thesis by (intro conjI)
qed

theorem paint_block_frame_partition_witness:
  "(1::int) \<le> 2 \<and> (1::int) \<le> 1 \<and> (1::int) \<le> 3
   \<and> (\<exists>g' p'. paint_blocks 2 1 3
          (counting, load \<lparr>xsize = 6, ysize = 3, pix = (\<lambda>_. (0, 0, 0))\<rparr>) = Inr (g', p')
        \<and> count_list (map fst (assigned p')) (4, 2) = 1
        \<and> (\<forall>a \<in> set (assigned p'). pix (target p') (fst a) = snd a))"
proof -
  have h: "(1::int) \<le> 2" "(1::int) \<le> 1" "(1::int) \<le> 3" by simp_all
  define img :: image where "img = \<lparr>xsize = 6, ysize = 3, pix = (\<lambda>_. (0, 0, 0))\<rparr>"
  have sz: "xsize img = nat (2 * 3) \<and> ysize img = nat (1 * 3)" by (simp add: img_def)
  have d: "\<forall>img g. xsize img = nat (2 * 3) \<and> ysize img = nat (1 * 3) \<longrightarrow>
            (\<exists>g' p'. paint_blocks 2 1 3 (g, load img) = Inr (g', p')
               \<and> set (map fst (assigned p')) = {0 ..< 2 * 3} \<times> {0 ..< 1 * 3}
               \<and> (\<forall>q \<in> {0 ..< 2 * 3} \<times> {0 ..< 1 * 3}. count_list (map fst (assigned p')) q = 1)
               \<and> (\<forall>a \<in> set (assigned p'). pix (target p') (fst a) = snd a))"
    using paint_block_frame_partition [OF h] by (elim conjE) assumption
  from d [rule_format, OF sz, of counting]
  obtain g' p' where r: "paint_blocks 2 1 3 (counting, load img) = Inr (g', p')"
    and c: "\<forall>q \<in> {0 ..< 2 * 3} \<times> {0 ..< 1 * 3}. count_list (map fst (assigned p')) q = 1"
    and k: "\<forall>a \<in> set (assigned p'). pix (target p') (fst a) = snd a"
    by blast
  have "((4::int), (2::int)) \<in> {0 ..< 2 * 3} \<times> {0 ..< 1 * 3}" by simp
  then have "count_list (map fst (assigned p')) (4, 2) = 1" using c by blast
  then show ?thesis using r h k unfolding img_def by blast
qed

section \<open>Properties of generate\_tiles.py\<close>

lemma py_truediv_finite:
  assumes "0 \<le> a" "0 < b" "a < 2 ^ 53"
  shows "py_truediv a b = Inr (Finite (fl (of_int a / of_int b)))"
proof -
  have b1: "(1::rat) \<le> of_int b" using assms(2) by simp
  have a0: "(0::rat) \<le> of_int a" using assms(1) by simp
  have q0: "(0::rat) \<le> of_int a / of_int b" using a0 b1 by simp
  have "(of_int a :: rat) / of_int b \<le> of_int a / 1"
    using a0 b1 by (intro divide_left_mono) simp_all
  also have "\<dots> \<le> of_int (2 ^ 53)" using assms(3) by (simp only: div_by_1 of_int_le_iff)
  also have "\<dots> \<le> (2::rat) ^ 1023" by simp
  finally have "\<not> overflows (of_int a / of_int b)" using q0 by (intro not_overflows)
  then show ?thesis using assms(2) by (simp add: py_truediv_def)
qed

lemma int_to_float_exact:
  assumes "0 \<le> c" "c < 2 ^ 53"
  shows "int_to_float c = Inr (Finite (of_int c))"
proof -
  have "(of_int c :: rat) \<le> of_int (2 ^ 53)" using assms(2) by (simp only: of_int_le_iff)
  also have "\<dots> \<le> (2::rat) ^ 1023" by simp
  finally have "\<not> overflows (of_int c)" using assms(1) by (intro not_overflows) simp_all
  moreover have "fl (of_int c) = of_int c" using assms by (intro fl_of_int) simp
  ultimately show ?thesis by (simp add: int_to_float_def)
qed

lemma int_times_float_finite:
  assumes "0 \<le> c" "c < 2 ^ 53" "0 \<le> q" "of_int c * q \<le> 2 ^ 1023"
  shows "int_times_float c (Finite q) = Inr (Finite (fl (of_int c * q)))"
proof -
  have "0 \<le> of_int c * q" using assms(1,3) by simp
  then have "\<not> overflows (of_int c * q)" using assms(4) by (intro not_overflows)
  then show ?thesis
    by (simp add: int_times_float_def int_to_float_exact [OF assms(1,2)] float_mult_def)
qed

lemma fl_1 [simp]: "fl 1 = 1"
  using fl_of_int [of 1] by simp

lemma and_then_Inr [simp]: "and_then (Inr x) f = f x"
  by (simp add: and_then_def)

lemma and_then_Inl [simp]: "and_then (Inl e) f = Inl e"
  by (simp add: and_then_def)

lemma py_truediv_zero [simp]: "py_truediv a 0 = Inl (ZeroDivisionError ''division by zero'')"
  by (simp add: py_truediv_def)


lemma py_range_0_1: "py_range 0 1 = [0]"
  by (simp add: py_range_def)

lemma cell_bounds_1_1: "cell_bounds 1 1 (Finite 1) (Finite 1) 0 0 = Inr (0, 0, 1, 1)"
proof -
  have m0: "int_times_float 0 (Finite 1) = Inr (Finite 0)"
    using int_times_float_finite [of 0 1] by simp
  have m1: "int_times_float 1 (Finite 1) = Inr (Finite 1)"
    using int_times_float_finite [of 1 1] by simp
  have r0: "py_round (Finite 0) = Inr 0" "py_round (Finite 1) = Inr 1"
    using round_half_even_of_int [of 0] round_half_even_of_int [of 1]
    by (simp_all add: py_round_def)
  show ?thesis by (simp add: cell_bounds_def m0 m1 r0)
qed

lemma py_truediv_1_1: "py_truediv 1 1 = Inr (Finite 1)"
  using py_truediv_finite [of 1 1] by simp


lemma tiles_phase_refused:
  "tiles_phase preview_refused one_column empty_world =
     (Inr ([\<lparr>xsize = 2, ysize = 2, pix = (\<lambda>_. (10, 20, 30))\<rparr>],
           ''/home/user/Desktop/image_tiles_20240101_120000''),
      \<lparr>stdout = [''Source image: photo.jpg (1x1), grid: 1x1, output: /home/user/Desktop/image_tiles_20240101_120000''],
       dirs = [''/home/user/Desktop/image_tiles_20240101_120000''],
       files = [(''/home/user/Desktop/image_tiles_20240101_120000/tile_r0_c0.png'',
                 \<lparr>xsize = 2, ysize = 2, pix = (\<lambda>_. (10, 20, 30))\<rparr>)]\<rparr>)"
  by (simp add: tiles_phase_def preview_refused_def one_column_def example_env_def
        example_args_def empty_world_def
        one_pixel_def py_truediv_1_1 ensure_desktop_folder_def py_join_def print_def
        make_tiles_def py_range_0_1 make_tile_def cell_bounds_1_1 degenerate_def crop_def
        average_color_def make_solid_tile_def Image_new_def save_io_def save_def str_int_def
        digit_char_def Let_def)

lemma build_preview_one:
  "\<exists>preview. build_preview preview_refused [t] 1 2 2 (30, 30, 30) = Inr preview"
  by (simp add: build_preview_def py_truediv_1_1 py_ceil_def Image_new_def
        preview_refused_def example_env_def enumerate_list_def py_range_0_1 paste_tile_def
        py_mod_def Let_def)



lemma main_after_tiles:
  assumes "tiles_phase env a wd = (Inr (tiles, out_dir), wd1)"
  shows "main env a wd = preview_phase env a tiles out_dir wd1"
  using assms by (simp add: main_def)

lemma preview_phase_failure:
  assumes "build_preview env tiles (arg_preview_cols a) (arg_tile_size a) 2 (30, 30, 30) = Inl e
           \<or> (\<exists>preview.
                 build_preview env tiles (arg_preview_cols a) (arg_tile_size a) 2 (30, 30, 30)
                   = Inr preview
                 \<and> save_error env (py_join out_dir ''preview.png'') preview = Some e)"
  shows "preview_phase env a tiles out_dir wd
           = (Exit 0, wd\<lparr>stdout := stdout wd
                @ [''Failed to build preview: '' @ str_exn e, ''Done.'']\<rparr>)"
  using assms
proof
  assume "build_preview env tiles (arg_preview_cols a) (arg_tile_size a) 2 (30, 30, 30) = Inl e"
  then show ?thesis by (simp add: preview_phase_def print_def)
next
  assume "\<exists>preview.
            build_preview env tiles (arg_preview_cols a) (arg_tile_size a) 2 (30, 30, 30)
              = Inr preview
            \<and> save_error env (py_join out_dir ''preview.png'') preview = Some e"
  then obtain preview where
    "build_preview env tiles (arg_preview_cols a) (arg_tile_size a) 2 (30, 30, 30) = Inr preview"
    "save_error env (py_join out_dir ''preview.png'') preview = Some e"
    by blast
  then show ?thesis by (simp add: preview_phase_def print_def save_io_def save_def)
qed

text \<open>
  Claim C6. When the source path is not a file, or opening and decoding it raises, the
  run prints one message and exits with code 1, and the world is otherwise as it was: no
  directory has been created and no file written.
\<close>

theorem main_source_unreadable:
  assumes "\<not> isfile env (arg_source a) \<or> (\<exists>e. image_open env (arg_source a) = Inl e)"
  shows "(\<exists>msg. main env a wd = (Exit 1, wd\<lparr>stdout := stdout wd @ [msg]\<rparr>))
       \<and> dirs (snd (main env a wd)) = dirs wd \<and> files (snd (main env a wd)) = files wd"
proof -
  have "\<exists>msg. main env a wd = (Exit 1, wd\<lparr>stdout := stdout wd @ [msg]\<rparr>)"
  proof (cases "isfile env (arg_source a)")
    case False
    then have "tiles_phase env a wd
                 = (Inl (Exit 1), print (''Source image not found: '' @ arg_source a) wd)"
      by (simp add: tiles_phase_def)
    then have "main env a wd
                 = (Exit 1, print (''Source image not found: '' @ arg_source a) wd)"
      by (simp add: main_def)
    then show ?thesis unfolding print_def by blast
  next
    case True
    then obtain e where e: "image_open env (arg_source a) = Inl e" using assms by blast
    have "tiles_phase env a wd
            = (Inl (Exit 1), print (''Failed to open image: '' @ str_exn e) wd)"
      using True e by (simp add: tiles_phase_def)
    then have "main env a wd = (Exit 1, print (''Failed to open image: '' @ str_exn e) wd)"
      by (simp add: main_def)
    then show ?thesis unfolding print_def by blast
  qed
  then obtain msg where m: "main env a wd = (Exit 1, wd\<lparr>stdout := stdout wd @ [msg]\<rparr>)"
    by blast
  have "dirs (snd (main env a wd)) = dirs wd" "files (snd (main env a wd)) = files wd"
    by (simp_all add: m)
  with m show ?thesis by blast
qed

theorem main_source_unreadable_witness:
  "\<not> isfile example_env (arg_source (example_args\<lparr>arg_source := ''missing.jpg''\<rparr>))
   \<and> (\<exists>msg. main example_env (example_args\<lparr>arg_source := ''missing.jpg''\<rparr>) empty_world
               = (Exit 1, empty_world\<lparr>stdout := stdout empty_world @ [msg]\<rparr>))"
proof -
  have h: "\<not> isfile example_env (arg_source (example_args\<lparr>arg_source := ''missing.jpg''\<rparr>))"
    by (simp add: example_env_def)
  then have "\<not> isfile example_env (arg_source (example_args\<lparr>arg_source := ''missing.jpg''\<rparr>))
             \<or> (\<exists>e. image_open example_env
                       (arg_source (example_args\<lparr>arg_source := ''missing.jpg''\<rparr>)) = Inl e)"
    by (rule disjI1)
  from main_source_unreadable [OF this, of empty_world] h show ?thesis by blast
qed

text \<open>
  Claim C7. In a run that reaches the preview, when \<open>build_preview\<close> raises \<open>e\<close>, or
  saving the preview raises \<open>e\<close>, the run prints \<open>Failed to build preview: e\<close> and
  \<open>Done.\<close> and ends normally, with exit code 0; the directories and the files are those
  of the moment the grid loops ended, so every tile written is still there, as written.
\<close>

theorem preview_failure_logged:
  assumes "tiles_phase env a wd = (Inr (tiles, out_dir), wd1)"
    and "build_preview env tiles (arg_preview_cols a) (arg_tile_size a) 2 (30, 30, 30) = Inl e
         \<or> (\<exists>preview.
               build_preview env tiles (arg_preview_cols a) (arg_tile_size a) 2 (30, 30, 30)
                 = Inr preview
               \<and> save_error env (py_join out_dir ''preview.png'') preview = Some e)"
  shows "main env a wd
           = (Exit 0, wd1\<lparr>stdout := stdout wd1
                @ [''Failed to build preview: '' @ str_exn e, ''Done.'']\<rparr>)
       \<and> files (snd (main env a wd)) = files wd1 \<and> dirs (snd (main env a wd)) = dirs wd1"
proof -
  have m: "main env a wd
             = (Exit 0, wd1\<lparr>stdout := stdout wd1
                  @ [''Failed to build preview: '' @ str_exn e, ''Done.'']\<rparr>)"
    using main_after_tiles [OF assms(1)] preview_phase_failure [OF assms(2)] by simp
  have "files (snd (main env a wd)) = files wd1" "dirs (snd (main env a wd)) = dirs wd1"
    by (simp_all add: m)
  with m show ?thesis by blast
qed

theorem preview_failure_logged_witness:
  "\<exists>tiles out_dir wd1.
     tiles_phase preview_refused one_column empty_world = (Inr (tiles, out_dir), wd1)
     \<and> (\<exists>preview. build_preview preview_refused tiles (arg_preview_cols one_column)
                     (arg_tile_size one_column) 2 (30, 30, 30) = Inr preview
          \<and> save_error preview_refused (py_join out_dir ''preview.png'') preview
              = Some (OSError ''No space left on device''))
     \<and> main preview_refused one_column empty_world
         = (Exit 0, wd1\<lparr>stdout := stdout wd1
              @ [''Failed to build preview: No space left on device'', ''Done.'']\<rparr>)
     \<and> map fst (files wd1)
         = [''/home/user/Desktop/image_tiles_20240101_120000/tile_r0_c0.png'']"
proof -
  define tile :: image where "tile = \<lparr>xsize = 2, ysize = 2, pix = (\<lambda>_. (10, 20, 30))\<rparr>"
  define dir where "dir = ''/home/user/Desktop/image_tiles_20240101_120000''"
  define wd1 where "wd1 =
    \<lparr>stdout = [''Source image: photo.jpg (1x1), grid: 1x1, output: /home/user/Desktop/image_tiles_20240101_120000''],
     dirs = [''/home/user/Desktop/image_tiles_20240101_120000''],
     files = [(''/home/user/Desktop/image_tiles_20240101_120000/tile_r0_c0.png'', tile)]\<rparr>"
  have tp: "tiles_phase preview_refused one_column empty_world = (Inr ([tile], dir), wd1)"
    unfolding tile_def dir_def wd1_def by (rule tiles_phase_refused)
  obtain preview where
    bp: "build_preview preview_refused [tile] 1 2 2 (30, 30, 30) = Inr preview"
    using build_preview_one by blast
  have a: "arg_preview_cols one_column = 1" "arg_tile_size one_column = 2"
    by (simp_all add: one_column_def example_args_def)
  have sv: "save_error preview_refused (py_join dir ''preview.png'') preview
              = Some (OSError ''No space left on device'')"
    by (simp add: preview_refused_def dir_def py_join_def)
  have f: "\<exists>preview. build_preview preview_refused [tile] (arg_preview_cols one_column)
                     (arg_tile_size one_column) 2 (30, 30, 30) = Inr preview
          \<and> save_error preview_refused (py_join dir ''preview.png'') preview
              = Some (OSError ''No space left on device'')"
    using bp sv a by auto
  then have "build_preview preview_refused [tile] (arg_preview_cols one_column)
               (arg_tile_size one_column) 2 (30, 30, 30) = Inl (OSError ''No space left on device'')
         \<or> (\<exists>preview. build_preview preview_refused [tile] (arg_preview_cols one_column)
                     (arg_tile_size one_column) 2 (30, 30, 30) = Inr preview
          \<and> save_error preview_refused (py_join dir ''preview.png'') preview
              = Some (OSError ''No space left on device''))"
    by (rule disjI2)
  from preview_failure_logged [OF tp this]
  have m: "main preview_refused one_column empty_world
         = (Exit 0, wd1\<lparr>stdout := stdout wd1
              @ [''Failed to build preview: No space left on device'', ''Done.'']\<rparr>)"
    by simp
  have fs: "map fst (files wd1)
         = [''/home/user/Desktop/image_tiles_20240101_120000/tile_r0_c0.png'']"
    by (simp add: wd1_def)
  show ?thesis
    by (intro exI [of _ "[tile]"] exI [of _ dir] exI [of _ wd1] conjI tp f m fs)
qed



lemma spec_position_wrap:
  assumes "1 \<le> cols" "(i + 1) mod cols = 0"
  shows "spec_position cols s pad (i + 1)
           = (pad, snd (spec_position cols s pad i) + (s + pad))"
proof -
  define q where "q = (i + 1) div cols"
  have "cols * q + (i + 1) mod cols = i + 1" unfolding q_def by (rule mult_div_mod_eq)
  then have "i + 1 = cols * q" using assms(2) by simp
  then have i: "i = cols * (q - 1) + (cols - 1)" by (simp add: algebra_simps)
  have "i div cols = q - 1"
    by (rule int_div_pos_eq [OF i]) (use assms(1) in simp_all)
  then have "(i + 1) div cols = i div cols + 1" by (simp add: q_def)
  then show ?thesis using assms(2) by (simp add: spec_position_def algebra_simps)
qed

lemma spec_position_next:
  assumes "1 \<le> cols" "(i + 1) mod cols \<noteq> 0"
  shows "spec_position cols s pad (i + 1)
           = (fst (spec_position cols s pad i) + (s + pad), snd (spec_position cols s pad i))"
proof -
  have c: "0 < cols" using assms(1) by simp
  have r: "0 \<le> i mod cols" "i mod cols < cols" using c by simp_all
  have ne: "i mod cols + 1 \<noteq> cols"
  proof
    assume "i mod cols + 1 = cols"
    then have "(i mod cols + 1) mod cols = 0" by simp
    then have "(i + 1) mod cols = 0" by (simp add: mod_simps)
    with assms(2) show False by simp
  qed
  have lt: "i mod cols + 1 < cols" using r ne by simp
  have i: "i + 1 = cols * (i div cols) + (i mod cols + 1)" by simp
  have d: "(i + 1) div cols = i div cols"
    by (rule int_div_pos_eq [OF i]) (use r lt in simp_all)
  have m: "(i + 1) mod cols = i mod cols + 1"
    by (rule int_mod_pos_eq [OF i]) (use r lt in simp_all)
  have "fst (spec_position cols s pad (i + 1)) = fst (spec_position cols s pad i) + (s + pad)"
    unfolding spec_position_def fst_conv m by (simp add: algebra_simps)
  moreover have "snd (spec_position cols s pad (i + 1)) = snd (spec_position cols s pad i)"
    unfolding spec_position_def snd_conv d by simp
  ultimately show ?thesis by (simp add: prod_eq_iff)
qed

lemma paste_tile_step:
  assumes "1 \<le> cols"
  shows "paste_tile cols s pad (i, t) (pv, spec_position cols s pad i)
         = Inr (paste t (spec_position cols s pad i) pv, spec_position cols s pad (i + 1))"
proof (cases "(i + 1) mod cols = 0")
  case True
  show ?thesis
    using assms True spec_position_wrap [OF assms True, of s pad]
    by (simp add: paste_tile_def py_mod_def and_then_def Let_def case_prod_unfold)
next
  case False
  show ?thesis
    using assms False spec_position_next [OF assms False, of s pad]
    by (simp add: paste_tile_def py_mod_def and_then_def Let_def case_prod_unfold)
qed

lemma paste_loop:
  assumes "1 \<le> cols"
  shows "for_each (zip [k..k + int (length ts) - 1] ts) (paste_tile cols s pad)
           (pv, spec_position cols s pad k)
         = Inr (spec_paste_tiles cols s pad (zip [k..k + int (length ts) - 1] ts) pv,
                spec_position cols s pad (k + int (length ts)))"
proof (induction ts arbitrary: k pv)
  case Nil
  show ?case by simp
next
  case (Cons t ts)
  define pv' where "pv' = paste t (spec_position cols s pad k) pv"
  have u: "[k..k + 1 + int (length ts) - 1] = k # [k + 1..k + 1 + int (length ts) - 1]"
    by (simp add: upto_rec1)
  have e: "k + int (length (t # ts)) = k + 1 + int (length ts)" by simp
  have step: "paste_tile cols s pad (k, t) (pv, spec_position cols s pad k)
                = Inr (pv', spec_position cols s pad (k + 1))"
    unfolding pv'_def by (rule paste_tile_step [OF assms])
  have "for_each (zip (k # [k + 1..k + 1 + int (length ts) - 1]) (t # ts))
          (paste_tile cols s pad) (pv, spec_position cols s pad k)
        = for_each (zip [k + 1..k + 1 + int (length ts) - 1] ts)
            (paste_tile cols s pad) (pv', spec_position cols s pad (k + 1))"
    by (simp only: zip_Cons_Cons for_each.simps step sum.case)
  also have "\<dots> = Inr (spec_paste_tiles cols s pad (zip [k + 1..k + 1 + int (length ts) - 1] ts) pv',
                       spec_position cols s pad (k + 1 + int (length ts)))"
    by (rule Cons.IH)
  also have "spec_paste_tiles cols s pad (zip [k + 1..k + 1 + int (length ts) - 1] ts) pv'
               = spec_paste_tiles cols s pad
                   (zip (k # [k + 1..k + 1 + int (length ts) - 1]) (t # ts)) pv"
    by (simp only: zip_Cons_Cons spec_paste_tiles.simps pv'_def)
  finally show ?case by (simp only: e u)
qed

lemma spec_position_0: "spec_position cols s pad 0 = (pad, pad)"
  by (simp add: spec_position_def)

lemma paste_tiles_spec:
  assumes "1 \<le> cols"
  shows "for_each (enumerate_list ts) (paste_tile cols s pad) (pv, pad, pad)
         = Inr (spec_paste_tiles cols s pad (enumerate_list ts) pv,
                spec_position cols s pad (int (length ts)))"
  using paste_loop [OF assms, of 0 ts s pad pv]
  by (simp add: enumerate_list_def py_range_def spec_position_0)








lemma ceil_fl_div:
  assumes "0 \<le> n" "n < 2 ^ 53" "1 \<le> c" "c < 2 ^ 53"
  shows "\<lceil>fl (of_int n / of_int c)\<rceil> = \<lceil>(of_int n :: rat) / of_int c\<rceil>"
proof (cases "n = 0")
  case True
  then show ?thesis by simp
next
  case False
  define x :: rat where "x = of_int n / of_int c"
  define m where "m = \<lceil>x\<rceil>"
  have n1: "1 \<le> n" using assms(1) False by simp
  have cp: "(0::rat) < of_int c" using assms(3) by simp
  have c1: "(1::rat) \<le> of_int c" using assms(3) by simp
  have x0: "0 < x" unfolding x_def using n1 cp by simp
  have xn: "x \<le> of_int n"
  proof -
    have "x \<le> of_int n / 1" unfolding x_def using n1 c1 by (intro divide_left_mono) simp_all
    then show ?thesis by simp
  qed
  have up: "x \<le> of_int m" unfolding m_def by simp
  have lo: "of_int m - 1 < x" unfolding m_def by linarith
  have "m \<le> n" unfolding m_def using xn by (simp add: ceiling_le_iff)
  then have m53: "m < 2 ^ 53" using assms(2) by simp
  have a: "fl x \<le> of_int m"
    by (rule fl_le_of_int [OF _ up m53]) (use x0 in simp)
  have "(of_int (m - 1) :: rat) * of_int c < of_int n"
    using lo cp unfolding x_def by (simp add: pos_less_divide_eq)
  then have "(m - 1) * c < n" by (simp only: of_int_mult [symmetric] of_int_less_iff)
  then have "(m - 1) * c + 1 \<le> n" by simp
  then have "(of_int ((m - 1) * c + 1) :: rat) \<le> of_int n" by (simp only: of_int_le_iff)
  then have "(of_int m - 1) * of_int c + 1 \<le> (of_int n :: rat)" by simp
  then have "((of_int m - 1) * of_int c + 1) / of_int c \<le> (of_int n :: rat) / of_int c"
    using cp by (simp only: divide_right_mono less_imp_le)
  then have gap: "of_int m - 1 + 1 / of_int c \<le> x"
    using cp unfolding x_def by (simp add: add_divide_distrib)
  define P :: rat where "P = 2 ^ 53"
  have Pp: "0 < P" by (simp add: P_def)
  have nP: "(of_int n :: rat) < P"
  proof -
    have "(of_int n :: rat) < of_int (2 ^ 53)" using assms(2) by (simp only: of_int_less_iff)
    then show ?thesis by (simp add: P_def)
  qed
  have cP: "(of_int c :: rat) < P"
  proof -
    have "(of_int c :: rat) < of_int (2 ^ 53)" using assms(4) by (simp only: of_int_less_iff)
    then show ?thesis by (simp add: P_def)
  qed
  have xe: "x / P = (of_int n / P) / of_int c" by (simp add: x_def)
  have "(of_int n :: rat) / P < 1" using nP Pp by (simp only: divide_less_eq_1_pos)
  then have "(of_int n / P) / of_int c < 1 / of_int c"
    using cp by (simp only: divide_strict_right_mono)
  then have small: "x / P < 1 / of_int c" by (simp only: xe)
  have n1r: "(1::rat) \<le> of_int n" using n1 by simp
  have "1 / P \<le> 1 / of_int c" using cP cp by (intro divide_left_mono) simp_all
  also have "\<dots> \<le> of_int n / of_int c" using n1r cp by (intro divide_right_mono) simp_all
  finally have xl: "1 / P \<le> x" by (simp only: x_def)
  have "(2::rat) powi (- 1022) \<le> 2 powi (- 53)" by (simp only: two_powi_le_iff)
  moreover have "(2::rat) powi (- 53) = 1 / P"
    unfolding P_def by (simp only: power_int_minus power_int_numeral inverse_eq_divide)
  ultimately have "2 powi (- 1022) \<le> x" using xl by (simp only: order_trans)
  from fl_rel_error [OF this] have "\<bar>fl x - x\<bar> \<le> x / P" by (simp only: P_def)
  then have "x - x / P \<le> fl x" by linarith
  then have b: "of_int m - 1 < fl x" using small gap by linarith
  have "\<lceil>fl x\<rceil> = m" using a b by (simp add: ceiling_unique)
  then show ?thesis by (simp add: x_def m_def)
qed

lemma ceil_small:
  assumes "0 \<le> n" "n < 2 ^ 53" "2 ^ 53 \<le> c"
  shows "0 \<le> \<lceil>fl (of_int n / of_int c)\<rceil> \<and> \<lceil>fl (of_int n / of_int c)\<rceil> \<le> 1
       \<and> 0 \<le> \<lceil>(of_int n :: rat) / of_int c\<rceil> \<and> \<lceil>(of_int n :: rat) / of_int c\<rceil> \<le> 1"
proof -
  define x :: rat where "x = of_int n / of_int c"
  have c: "0 < c" "n \<le> c" using assms by simp_all
  then have cp: "(0::rat) < of_int c" and nc: "(of_int n :: rat) \<le> of_int c" by simp_all
  have x0: "0 \<le> x" unfolding x_def using assms(1) cp by simp
  have x1: "x \<le> 1" unfolding x_def using nc cp by (simp add: pos_divide_le_eq)
  have f0: "0 \<le> fl x" by (rule fl_nonneg [OF x0])
  have "fl x \<le> of_int 1" by (rule fl_le_of_int [OF x0]) (use x1 in simp_all)
  then have f1: "fl x \<le> 1" by simp
  have "-1 < x" "-1 < fl x" using x0 f0 by simp_all
  then have "0 \<le> \<lceil>x\<rceil>" "0 \<le> \<lceil>fl x\<rceil>" by (simp_all add: le_ceiling_iff)
  moreover have "\<lceil>x\<rceil> \<le> 1" "\<lceil>fl x\<rceil> \<le> 1" using x1 f1 by (simp_all add: ceiling_le_iff)
  ultimately show ?thesis by (simp add: x_def)
qed

lemma far_apart:
  assumes "2 ^ 53 \<le> (c::int)" "0 \<le> r" "r \<le> 1" "d \<noteq> 0"
    and "0 \<le> c * d + p" "c * d + p < 2 ^ 31" "0 \<le> r * d + p" "r * d + p < 2 ^ 31"
  shows False
proof -
  have k: "2 ^ 53 - 1 \<le> c - r" using assms(1,3) by simp
  have e: "(c * d + p) - (r * d + p) = (c - r) * d" by (simp add: algebra_simps)
  have nn: "0 \<le> c - r" using k by simp
  have pw: "(2::int) ^ 31 \<le> 2 ^ 53 - 1" by simp
  consider "1 \<le> d" | "d \<le> - 1" using assms(4) by linarith
  then show False
  proof cases
    case 1
    have "(c - r) * 1 \<le> (c - r) * d" by (rule mult_left_mono [OF 1 nn])
    then have "c - r \<le> (c - r) * d" by (simp only: mult_1_right)
    then have "2 ^ 53 - 1 \<le> (c - r) * d" using k by linarith
    then show False using e pw assms(5-8) by linarith
  next
    case 2
    have "(c - r) * d \<le> (c - r) * (- 1)" by (rule mult_left_mono [OF 2 nn])
    then have "(c - r) * d \<le> - (c - r)" by (simp only: mult_minus_right mult_1_right)
    then have "(c - r) * d \<le> - (2 ^ 53 - 1)" using k by linarith
    then show False using e pw assms(5-8) by linarith
  qed
qed

lemma height_agree:
  assumes "1 \<le> cols" "0 \<le> n" "n < 2 ^ 53"
    and "0 \<le> cols * s + (cols + 1) * pad" "cols * s + (cols + 1) * pad < 2 ^ 31"
    and "r1 = \<lceil>fl (of_int n / of_int cols)\<rceil>" "r2 = \<lceil>(of_int n :: rat) / of_int cols\<rceil>"
    and "(0 \<le> r1 * s + (r1 + 1) * pad \<and> r1 * s + (r1 + 1) * pad < 2 ^ 31)
         \<or> (0 \<le> r2 * s + (r2 + 1) * pad \<and> r2 * s + (r2 + 1) * pad < 2 ^ 31)"
  shows "r1 * s + (r1 + 1) * pad = r2 * s + (r2 + 1) * pad"
proof (cases "cols < 2 ^ 53")
  case True
  have "r1 = r2" unfolding assms(6,7) by (rule ceil_fl_div [OF assms(2,3,1) True])
  then show ?thesis by simp
next
  case False
  then have big: "2 ^ 53 \<le> cols" by simp
  from ceil_small [OF assms(2,3) big]
  have r: "0 \<le> r1" "r1 \<le> 1" "0 \<le> r2" "r2 \<le> 1" unfolding assms(6,7) by simp_all
  define d where "d = s + pad"
  have w: "0 \<le> cols * d + pad" "cols * d + pad < 2 ^ 31"
    using assms(4,5) by (simp_all add: d_def algebra_simps)
  have h: "r1 * s + (r1 + 1) * pad = r1 * d + pad" "r2 * s + (r2 + 1) * pad = r2 * d + pad"
    by (simp_all add: d_def algebra_simps)
  have "d = 0"
  proof (rule ccontr)
    assume d: "d \<noteq> 0"
    from assms(8) show False
    proof
      assume "0 \<le> r1 * s + (r1 + 1) * pad \<and> r1 * s + (r1 + 1) * pad < 2 ^ 31"
      then have "0 \<le> r1 * d + pad" "r1 * d + pad < 2 ^ 31" by (simp_all only: h)
      then show False using far_apart [OF big r(1,2) d w] by simp
    next
      assume "0 \<le> r2 * s + (r2 + 1) * pad \<and> r2 * s + (r2 + 1) * pad < 2 ^ 31"
      then have "0 \<le> r2 * d + pad" "r2 * d + pad < 2 ^ 31" by (simp_all only: h)
      then show False using far_apart [OF big r(3,4) d w] by simp
    qed
  qed
  then show ?thesis by (simp add: h)
qed

lemma xsize_paste [simp]: "xsize (paste t xy pv) = xsize pv"
  by (simp add: paste_def split: prod.splits)

lemma ysize_paste [simp]: "ysize (paste t xy pv) = ysize pv"
  by (simp add: paste_def split: prod.splits)

lemma size_spec_paste_tiles [simp]:
  "xsize (spec_paste_tiles cols s pad its pv) = xsize pv"
  "ysize (spec_paste_tiles cols s pad its pv) = ysize pv"
  by (induction its arbitrary: pv) auto

lemma build_preview_eq:
  assumes "1 \<le> cols" "length tiles < 2 ^ 53"
  shows "build_preview env tiles cols s pad bg =
     (case Image_new env
             (cols * s + (cols + 1) * pad,
              \<lceil>fl (of_int (int (length tiles)) / of_int cols)\<rceil> * s
                + (\<lceil>fl (of_int (int (length tiles)) / of_int cols)\<rceil> + 1) * pad) bg of
        Inl e \<Rightarrow> Inl e
      | Inr pv \<Rightarrow> Inr (spec_paste_tiles cols s pad (enumerate_list tiles) pv))"
proof -
  have n: "int (length tiles) < 2 ^ 53" using assms(2) by simp
  have d: "py_truediv (int (length tiles)) cols
             = Inr (Finite (fl (of_int (int (length tiles)) / of_int cols)))"
    by (rule py_truediv_finite) (use assms(1) n in simp_all)
  show ?thesis
    by (simp add: build_preview_def d py_ceil_def paste_tiles_spec [OF assms(1)] and_then_def
          Let_def split: sum.splits)
qed

lemma Image_new_Inr:
  "Image_new env (w, h) bg = Inr img \<longleftrightarrow>
     0 \<le> w \<and> w < 2 ^ 31 \<and> 0 \<le> h \<and> h < 2 ^ 31 \<and> \<not> out_of_memory env (w, h)
     \<and> img = \<lparr>xsize = nat w, ysize = nat h, pix = (\<lambda>_. bg)\<rparr>"
  by (auto simp: Image_new_def)

lemma build_preview_size_lemma:
  assumes "1 \<le> cols" "length tiles < 2 ^ 53"
  shows "(build_preview env tiles cols s pad bg = Inr img \<longrightarrow>
            (int (xsize img), int (ysize img)) = spec_preview_size (length tiles) cols s pad)
       \<and> ((case spec_preview_size (length tiles) cols s pad of
              (w, h) \<Rightarrow> 0 \<le> w \<and> w < 2 ^ 31 \<and> 0 \<le> h \<and> h < 2 ^ 31
                        \<and> \<not> out_of_memory env (w, h)) \<longrightarrow>
            (\<exists>img. build_preview env tiles cols s pad bg = Inr img))"
proof -
  define n where "n = int (length tiles)"
  define r1 where "r1 = \<lceil>fl (of_int n / of_int cols)\<rceil>"
  define r2 where "r2 = \<lceil>(of_int n :: rat) / of_int cols\<rceil>"
  define w where "w = cols * s + (cols + 1) * pad"
  define h1 where "h1 = r1 * s + (r1 + 1) * pad"
  define h2 where "h2 = r2 * s + (r2 + 1) * pad"
  have n: "0 \<le> n" "n < 2 ^ 53" using assms(2) by (simp_all add: n_def)
  have sp: "spec_preview_size (length tiles) cols s pad = (w, h2)"
    by (simp add: spec_preview_size_def spec_rows_def w_def h2_def r2_def n_def)
  have bp: "build_preview env tiles cols s pad bg =
     (case Image_new env (w, h1) bg of
        Inl e \<Rightarrow> Inl e
      | Inr pv \<Rightarrow> Inr (spec_paste_tiles cols s pad (enumerate_list tiles) pv))"
    unfolding w_def h1_def r1_def n_def by (rule build_preview_eq [OF assms])
  have agree: "h1 = h2"
    if "0 \<le> w" "w < 2 ^ 31" "(0 \<le> h1 \<and> h1 < 2 ^ 31) \<or> (0 \<le> h2 \<and> h2 < 2 ^ 31)"
    using that unfolding w_def h1_def h2_def
    by (intro height_agree [OF assms(1) n _ _ r1_def r2_def]) simp_all
  have a: "(int (xsize img), int (ysize img)) = spec_preview_size (length tiles) cols s pad"
    if "build_preview env tiles cols s pad bg = Inr img"
  proof -
    from that obtain pv where pv: "Image_new env (w, h1) bg = Inr pv"
      and img: "img = spec_paste_tiles cols s pad (enumerate_list tiles) pv"
      unfolding bp by (auto split: sum.splits)
    have b: "0 \<le> w" "w < 2 ^ 31" "0 \<le> h1" "h1 < 2 ^ 31"
      and pv': "pv = \<lparr>xsize = nat w, ysize = nat h1, pix = (\<lambda>_. bg)\<rparr>"
      using pv by (simp_all add: Image_new_Inr)
    have "h1 = h2" using b by (intro agree) simp_all
    then show ?thesis using b by (simp add: sp img pv')
  qed
  have t: "\<exists>img. build_preview env tiles cols s pad bg = Inr img"
    if "0 \<le> w \<and> w < 2 ^ 31 \<and> 0 \<le> h2 \<and> h2 < 2 ^ 31 \<and> \<not> out_of_memory env (w, h2)"
  proof -
    have "h1 = h2" using that by (intro agree) simp_all
    then have "Image_new env (w, h1) bg
                 = Inr \<lparr>xsize = nat w, ysize = nat h2, pix = (\<lambda>_. bg)\<rparr>"
      using that by (simp add: Image_new_Inr)
    then show ?thesis unfolding bp by simp
  qed
  show ?thesis using a t by (simp add: sp)
qed

text \<open>
  Claim C2. For \<open>n\<close> tiles and \<open>cols \<ge> 1\<close>, every raster that \<open>build_preview\<close> returns is
  exactly \<open>cols * tile_size + (cols + 1) * padding\<close> wide and
  \<open>rows * tile_size + (rows + 1) * padding\<close> high, where \<open>rows\<close> is the exact ceiling of
  \<open>n / cols\<close> (the float division and \<open>math.ceil\<close> of the code give this number
  for every list that fits in memory); and \<open>build_preview\<close> does return a raster whenever
  that width and height are sizes that Pillow accepts and can allocate.
\<close>

theorem build_preview_size:
  assumes "1 \<le> cols" "length tiles < 2 ^ 53"
  shows "(\<forall>env bg img. build_preview env tiles cols tile_size padding bg = Inr img \<longrightarrow>
            (int (xsize img), int (ysize img))
              = spec_preview_size (length tiles) cols tile_size padding)
       \<and> (\<forall>env bg.
            (case spec_preview_size (length tiles) cols tile_size padding of
               (w, h) \<Rightarrow> 0 \<le> w \<and> w < 2 ^ 31 \<and> 0 \<le> h \<and> h < 2 ^ 31
                         \<and> \<not> out_of_memory env (w, h)) \<longrightarrow>
            (\<exists>img. build_preview env tiles cols tile_size padding bg = Inr img))"
proof (intro conjI allI)
  fix env bg img
  show "build_preview env tiles cols tile_size padding bg = Inr img \<longrightarrow>
          (int (xsize img), int (ysize img))
            = spec_preview_size (length tiles) cols tile_size padding"
    using build_preview_size_lemma [OF assms, of env tile_size padding bg img]
    by (rule conjunct1)
next
  fix env bg
  show "(case spec_preview_size (length tiles) cols tile_size padding of
           (w, h) \<Rightarrow> 0 \<le> w \<and> w < 2 ^ 31 \<and> 0 \<le> h \<and> h < 2 ^ 31
                     \<and> \<not> out_of_memory env (w, h)) \<longrightarrow>
        (\<exists>img. build_preview env tiles cols tile_size padding bg = Inr img)"
    using build_preview_size_lemma [OF assms, of env tile_size padding bg]
    by (rule conjunct2)
qed

theorem build_preview_size_witness:
  "(1::int) \<le> 2 \<and> length [one_pixel, one_pixel, one_pixel] < 2 ^ 53
   \<and> spec_preview_size (length [one_pixel, one_pixel, one_pixel]) 2 4 2 = (14, 14)
   \<and> (\<exists>img. build_preview example_env [one_pixel, one_pixel, one_pixel] 2 4 2 (30, 30, 30)
                = Inr img
          \<and> (int (xsize img), int (ysize img)) = (14, 14))"
proof -
  have h: "(1::int) \<le> 2" "length [one_pixel, one_pixel, one_pixel] < 2 ^ 53" by simp_all
  have c: "\<lceil>(3::rat) / 2\<rceil> = 2" by (rule ceiling_unique) simp_all
  have sp: "spec_preview_size (length [one_pixel, one_pixel, one_pixel]) 2 4 2 = (14, 14)"
    by (simp add: spec_preview_size_def spec_rows_def c)
  note t = build_preview_size [OF h, of 4 2]
  have a: "\<forall>env bg img. build_preview env [one_pixel, one_pixel, one_pixel] 2 4 2 bg = Inr img \<longrightarrow>
            (int (xsize img), int (ysize img))
              = spec_preview_size (length [one_pixel, one_pixel, one_pixel]) 2 4 2"
    using t by (elim conjE) assumption
  have b: "\<forall>env bg.
            (case spec_preview_size (length [one_pixel, one_pixel, one_pixel]) 2 4 2 of
               (w, h) \<Rightarrow> 0 \<le> w \<and> w < 2 ^ 31 \<and> 0 \<le> h \<and> h < 2 ^ 31
                         \<and> \<not> out_of_memory env (w, h)) \<longrightarrow>
            (\<exists>img. build_preview env [one_pixel, one_pixel, one_pixel] 2 4 2 bg = Inr img)"
    using t by (elim conjE) assumption
  have ok: "case spec_preview_size (length [one_pixel, one_pixel, one_pixel]) 2 4 2 of
               (w, h) \<Rightarrow> 0 \<le> w \<and> w < 2 ^ 31 \<and> 0 \<le> h \<and> h < 2 ^ 31
                         \<and> \<not> out_of_memory example_env (w, h)"
    unfolding sp by (simp add: example_env_def)
  from b [rule_format, OF ok, of "(30, 30, 30)"]
  obtain img where
    r: "build_preview example_env [one_pixel, one_pixel, one_pixel] 2 4 2 (30, 30, 30) = Inr img"
    by blast
  have "(int (xsize img), int (ysize img)) = (14, 14)"
    using a [rule_format, OF r] unfolding sp .
  with h sp r show ?thesis by blast
qed

lemma round_half_even_strict:
  assumes "x + 1 < y"
  shows "round_half_even x < round_half_even y"
proof -
  define m where "m = round_half_even x"
  have "of_int m - 1 / 2 \<le> x" using round_half_even_upper [of x] by (simp add: m_def)
  then have "of_int (m + 1) - 1 / 2 < y" using assms by simp
  then have "m + 1 \<le> round_half_even y" by (rule round_half_even_ge_strict)
  then show ?thesis by (simp add: m_def)
qed

lemma fl_abs_error:
  assumes "0 \<le> x" "x < 2 ^ 50"
  shows "\<bar>fl x - x\<bar> \<le> 1 / 8"
proof (cases "x = 0")
  case True
  then show ?thesis by simp
next
  case False
  then have x: "0 < x" using assms(1) by simp
  have "x < 2 powi 50" using assms(2) by simp
  then have "ilog2 x < 50" by (rule ilog2_less [OF x])
  then have "float_exponent x \<le> - 3" using x by (simp add: float_exponent_def)
  then have "(2::rat) powi float_exponent x \<le> 2 powi (- 3)" by (simp only: two_powi_le_iff)
  also have "\<dots> = 1 / 8" by (simp add: power_int_minus)
  finally have "(2::rat) powi float_exponent x / 2 \<le> 1 / 8" by simp
  then show ?thesis using fl_error [OF False] by linarith
qed

lemma fl_quarter_below:
  assumes "1 \<le> w" "w < 2 ^ 50"
  shows "fl (of_int w - 1 / 4) = of_int w - 1 / 4"
proof -
  have e: "of_int (4 * w - 1) * 2 powi (- 2) = (of_int w :: rat) - 1 / 4"
    by (simp add: power_int_minus field_simps)
  have "fl (of_int (4 * w - 1) * 2 powi (- 2)) = of_int (4 * w - 1) * 2 powi (- 2)"
    by (rule fl_exact) (use assms in simp_all)
  then show ?thesis by (simp only: e)
qed

lemma fl_quarter_above:
  assumes "0 \<le> w" "w < 2 ^ 50"
  shows "fl (of_int w + 1 / 4) = of_int w + 1 / 4"
proof -
  have e: "of_int (4 * w + 1) * 2 powi (- 2) = (of_int w :: rat) + 1 / 4"
    by (simp add: power_int_minus field_simps)
  have "fl (of_int (4 * w + 1) * 2 powi (- 2)) = of_int (4 * w + 1) * 2 powi (- 2)"
    by (rule fl_exact) (use assms in simp_all)
  then show ?thesis by (simp only: e)
qed

lemma cell_width_error:
  assumes "0 \<le> w" "1 \<le> cols" "cols < 2 ^ 53"
  shows "\<bar>fl (of_int w / of_int cols) - of_int w / of_int cols\<bar>
           \<le> (of_int w / of_int cols) / 2 ^ 53"
proof (cases "w = 0")
  case True
  then show ?thesis by simp
next
  case False
  define P :: rat where "P = 2 ^ 53"
  have Pp: "0 < P" by (simp add: P_def)
  have w1: "(1::rat) \<le> of_int w" using assms(1) False by simp
  have cp: "(0::rat) < of_int cols" using assms(2) by simp
  have cP: "(of_int cols :: rat) < P"
  proof -
    have "(of_int cols :: rat) < of_int (2 ^ 53)" using assms(3) by (simp only: of_int_less_iff)
    then show ?thesis by (simp add: P_def)
  qed
  have "1 / P \<le> 1 / of_int cols" using cP cp by (intro divide_left_mono) simp_all
  also have "\<dots> \<le> of_int w / of_int cols" using w1 cp by (intro divide_right_mono) simp_all
  finally have xl: "1 / P \<le> of_int w / of_int cols" .
  have "(2::rat) powi (- 1022) \<le> 2 powi (- 53)" by (simp only: two_powi_le_iff)
  moreover have "(2::rat) powi (- 53) = 1 / P"
    unfolding P_def by (simp only: power_int_minus power_int_numeral inverse_eq_divide)
  ultimately have "2 powi (- 1022) \<le> (of_int w :: rat) / of_int cols"
    using xl by (simp only: order_trans)
  then show ?thesis by (rule fl_rel_error)
qed

lemma grid_line_products:
  assumes "0 \<le> w" "w < 2 ^ 31" "1 \<le> cols" "cols < 2 ^ 53"
    and "cw = fl (of_int w / of_int cols)"
  shows "0 \<le> cw"
    and "of_int cols * cw \<le> of_int w + 1 / 4"
    and "of_int w - 1 / 4 \<le> of_int cols * cw"
    and "(of_int cols - 1) * cw \<le> of_int w"
proof -
  define P :: rat where "P = 2 ^ 53"
  define C :: rat where "C = of_int cols"
  define W :: rat where "W = of_int w"
  define q :: rat where "q = W / C"
  have Pp: "0 < P" by (simp add: P_def)
  have C1: "1 \<le> C" using assms(3) by (simp add: C_def)
  have Cp: "0 < C" using C1 by simp
  have W0: "0 \<le> W" using assms(1) by (simp add: W_def)
  have CP: "C \<le> P"
  proof -
    have "(of_int cols :: rat) < of_int (2 ^ 53)" using assms(4) by (simp only: of_int_less_iff)
    then show ?thesis by (simp add: P_def C_def)
  qed
  have WP: "W / P \<le> 1 / 4"
  proof -
    have "(of_int w :: rat) < of_int (2 ^ 31)" using assms(2) by (simp only: of_int_less_iff)
    then have "W < 2 ^ 31" by (simp add: W_def)
    moreover have "(2::rat) ^ 31 \<le> P / 4" by (simp add: P_def)
    ultimately have "W \<le> P / 4" by simp
    then show ?thesis using Pp by (simp add: pos_divide_le_eq)
  qed
  have q0: "0 \<le> q" using W0 Cp by (simp add: q_def)
  have Cq: "C * q = W" using Cp by (simp add: q_def)
  have err: "\<bar>cw - q\<bar> \<le> q / P"
    using cell_width_error [OF assms(1,3,4)] by (simp add: assms(5) q_def W_def C_def P_def)
  have lo: "q - q / P \<le> cw" and hi: "cw \<le> q + q / P" using err by linarith+
  have qP: "q / P \<le> q" using q0 Pp
    by (simp add: pos_divide_le_eq P_def mult_le_cancel_left1)
  show cw0: "0 \<le> cw" using lo qP by linarith
  have "C * (q / P) = (C * q) / P" by (rule times_divide_eq_right)
  then have CqP: "C * (q / P) = W / P" by (simp only: Cq)
  have "C * cw \<le> C * (q + q / P)" using hi Cp by (simp only: mult_le_cancel_left_pos)
  also have "\<dots> = W + W / P" by (simp only: distrib_left Cq CqP)
  finally have up: "C * cw \<le> W + W / P" .
  have "C * (q - q / P) \<le> C * cw" using lo Cp by (simp only: mult_le_cancel_left_pos)
  moreover have "C * (q - q / P) = W - W / P" by (simp only: right_diff_distrib Cq CqP)
  ultimately have dn: "W - W / P \<le> C * cw" by simp
  have "C * cw \<le> W + 1 / 4" using up WP by linarith
  then show "of_int cols * cw \<le> of_int w + 1 / 4" by (simp only: C_def W_def)
  have "W - 1 / 4 \<le> C * cw" using dn WP by linarith
  then show "of_int w - 1 / 4 \<le> of_int cols * cw" by (simp only: C_def W_def)
  have "W / P \<le> W / C" using CP Cp W0 by (intro divide_left_mono) simp_all
  then have WPq: "W / P \<le> q" by (simp add: q_def)
  have "(C - 1) * cw \<le> (C - 1) * (q + q / P)"
    using hi C1 by (intro mult_left_mono) simp_all
  also have "\<dots> = C * q + C * (q / P) - q - q / P"
    by (simp add: algebra_simps diff_divide_distrib)
  also have "\<dots> = W + W / P - q - q / P" by (simp only: Cq CqP)
  also have "\<dots> \<le> W"
  proof -
    have "0 \<le> q / P" using q0 Pp by simp
    then show ?thesis using WPq by linarith
  qed
  finally show "(of_int cols - 1) * cw \<le> of_int w" by (simp only: C_def W_def)
qed

lemma edge_0 [simp]: "edge cw 0 = 0"
  using round_half_even_of_int [of 0] by (simp add: edge_def)

lemma edge_mono:
  assumes "0 \<le> cw" "0 \<le> c" "c \<le> c'"
  shows "edge cw c \<le> edge cw c'"
proof -
  have a: "(0::rat) \<le> of_int c * cw" using assms(1,2) by simp
  have "(of_int c :: rat) \<le> of_int c'" using assms(3) by simp
  then have "of_int c * cw \<le> of_int c' * cw" using assms(1) by (rule mult_right_mono)
  then have "fl (of_int c * cw) \<le> fl (of_int c' * cw)" by (rule fl_mono [OF a])
  then show ?thesis unfolding edge_def by (rule round_half_even_mono)
qed

lemma edge_nonneg:
  assumes "0 \<le> cw" "0 \<le> c"
  shows "0 \<le> edge cw c"
  using edge_mono [of cw 0 c] assms by simp

lemma edge_le_size:
  assumes "0 \<le> w" "w < 2 ^ 31" "1 \<le> cols" "cols < 2 ^ 53"
    and "cw = fl (of_int w / of_int cols)" "0 \<le> c" "c \<le> cols - 1"
  shows "edge cw c \<le> w"
proof -
  note g = grid_line_products [OF assms(1-5)]
  have "(of_int c :: rat) \<le> of_int (cols - 1)" using assms(7) by (simp only: of_int_le_iff)
  then have "(of_int c :: rat) \<le> of_int cols - 1" by simp
  then have "of_int c * cw \<le> (of_int cols - 1) * cw" using g(1) by (rule mult_right_mono)
  then have le: "of_int c * cw \<le> of_int w" using g(4) by simp
  have nn: "(0::rat) \<le> of_int c * cw" using g(1) assms(6) by simp
  have "fl (of_int c * cw) \<le> of_int w"
    by (rule fl_le_of_int [OF nn le]) (use assms(2) in simp)
  then show ?thesis unfolding edge_def by (rule round_half_even_le)
qed

lemma edge_last:
  assumes "0 \<le> w" "w < 2 ^ 31" "1 \<le> cols" "cols < 2 ^ 53"
    and "cw = fl (of_int w / of_int cols)"
  shows "edge cw cols = w"
proof (cases "w = 0")
  case True
  then have "cw = 0" by (simp add: assms(5))
  then show ?thesis using True round_half_even_of_int [of 0] by (simp add: edge_def)
next
  case False
  then have w1: "1 \<le> w" using assms(1) by simp
  have w50: "w < 2 ^ 50" using assms(2) by simp
  note g = grid_line_products [OF assms(1-5)]
  define x where "x = of_int cols * cw"
  have x0: "0 \<le> x" using g(1) assms(3) by (simp add: x_def)
  have lo0: "(0::rat) \<le> of_int w - 1 / 4" using w1 by simp
  have "fl (of_int w - 1 / 4) \<le> fl x" using g(3) by (intro fl_mono [OF lo0]) (simp add: x_def)
  then have a: "of_int w - 1 / 4 \<le> fl x" by (simp only: fl_quarter_below [OF w1 w50])
  have "fl x \<le> fl (of_int w + 1 / 4)" using g(2) by (intro fl_mono [OF x0]) (simp add: x_def)
  then have b: "fl x \<le> of_int w + 1 / 4" by (simp only: fl_quarter_above [OF assms(1) w50])
  have "w \<le> round_half_even (fl x)"
    by (rule round_half_even_ge_strict) (use a in linarith)
  moreover have "round_half_even (fl x) \<le> w"
    by (rule round_half_even_le_strict) (use b in linarith)
  ultimately show ?thesis by (simp add: edge_def x_def)
qed

lemma edge_strict:
  assumes "0 \<le> w" "w < 2 ^ 31" "1 \<le> cols" "cols < 2 ^ 53"
    and "cw = fl (of_int w / of_int cols)" "2 * cols \<le> w" "0 \<le> c" "c < cols"
  shows "edge cw c < edge cw (c + 1)"
proof -
  note g = grid_line_products [OF assms(1-5)]
  have cp: "(0::rat) < of_int cols" using assms(3) by simp
  have "(of_int (2 * cols) :: rat) \<le> of_int w" using assms(6) by (simp only: of_int_le_iff)
  then have "2 * (of_int cols :: rat) \<le> of_int w" by simp
  then have q2: "(of_int 2 :: rat) \<le> of_int w / of_int cols"
    using cp by (simp add: pos_le_divide_eq mult.commute)
  have cw2: "2 \<le> cw"
    using fl_ge_of_int [OF q2] by (simp add: assms(5))
  define x where "x = of_int c * cw"
  define y where "y = of_int (c + 1) * cw"
  have yx: "y = x + cw" by (simp add: x_def y_def algebra_simps)
  have x0: "0 \<le> x" using assms(7) g(1) by (simp add: x_def)
  have y0: "0 \<le> y" using yx x0 g(1) by simp
  have "c + 1 \<le> cols" using assms(8) by simp
  then have "(of_int (c + 1) :: rat) \<le> of_int cols" by (simp only: of_int_le_iff)
  then have "y \<le> of_int cols * cw" unfolding y_def using g(1) by (rule mult_right_mono)
  then have "y \<le> of_int w + 1 / 4" using g(2) by simp
  moreover have "(of_int w :: rat) < of_int (2 ^ 31)" using assms(2) by (simp only: of_int_less_iff)
  ultimately have "y < 2 ^ 31 + 1 / 4" by simp
  then have y50: "y < 2 ^ 50" by simp
  have x50: "x < 2 ^ 50" using y50 yx g(1) by simp
  have "\<bar>fl x - x\<bar> \<le> 1 / 8" by (rule fl_abs_error [OF x0 x50])
  moreover have "\<bar>fl y - y\<bar> \<le> 1 / 8" by (rule fl_abs_error [OF y0 y50])
  ultimately have "fl x + 1 < fl y" using yx cw2 by linarith
  then show ?thesis unfolding edge_def x_def y_def by (rule round_half_even_strict)
qed

end
